theory Spec2Isabelle
  imports Complex_Main "HOL-Library.Word" "HOL-Library.Log_Nat"
begin

unbundle bit_operations_syntax

section \<open>The environment: file system, random sources, event emitter\<close>

text \<open>
  The overwrite engine talks to Node's \<^verbatim>\<open>fs\<close>, \<^verbatim>\<open>crypto\<close>, \<^verbatim>\<open>Buffer\<close> and
  \<^verbatim>\<open>Math.random\<close>. Their visible behaviour is kept in one record: the files by path, the
  directory listings, the open descriptors, the two random streams with the number of values
  already consumed, the log of calls issued so far, the progress events emitted, the
  module-global \<^verbatim>\<open>folderSet\<close> of \<^verbatim>\<open>dir.ts\<close>, and the count and the index that the listener
  of a removal keeps.
  JavaScript numbers that hold sizes, positions and counters are integers here.
\<close>

type_synonym byte = "8 word"
type_synonym path = string

datatype error =
    EBADF | ENOENT | ENOTEMPTY | ERR_OUT_OF_RANGE | ERR_INVALID_ARG_VALUE

datatype call =
    Stat path
  | Open_rw path
  | Close nat
  | Unlink path
  | Write nat "byte list" int int int
  | Read nat int int
  | Ftruncate nat int
  | Rename path path
  | Readdir path
  | Rmdir path
  | RandomBytes int
  | MathRandom

datatype event = Init path | Mark path | Removed path | Done path

text \<open>
  The program emits on two emitters: the one that the module \<^verbatim>\<open>./events\<close> exports, which
  \<^verbatim>\<open>file.ts\<close> imports, and the one that \<^verbatim>\<open>remove\<close> of \<^verbatim>\<open>index.ts\<close> creates for its request and
  hands to \<^verbatim>\<open>remove_\<close>, which hands it to the standard. \<^verbatim>\<open>Tally\<close> holds the variables
  \<^verbatim>\<open>count\<close> and \<^verbatim>\<open>index\<close> of \<^verbatim>\<open>remove_\<close>, which are also its result.
\<close>

datatype emitter = Module_emitter | Own_emitter

datatype Tally = Tally (count: int) (index: "path list")

record world =
  files :: "path \<Rightarrow> byte list option"
  folders :: "path \<Rightarrow> path list option"
  handles :: "nat \<Rightarrow> path option"
  next_fd :: nat
  entropy :: "nat \<Rightarrow> byte"
  drawn :: nat
  uniform :: "nat \<Rightarrow> rat"
  rolled :: nat
  calls :: "call list"
  emitted :: "event list"
  folderSet :: "path set"
  tally :: "Tally option"

text \<open>
  An asynchronous function is a function of the world. It returns \<open>None\<close> when it never
  settles, and otherwise the world it leaves together with the rejection (\<open>Inl\<close>) or the
  value (\<open>Inr\<close>) of its promise.
\<close>

type_synonym 'a outcome = "(error + 'a) \<times> world"
type_synonym 'a io = "world \<Rightarrow> 'a outcome option"

definition resolve :: "'a \<Rightarrow> 'a io" where
  "resolve a w = Some (Inr a, w)"

definition reject :: "error \<Rightarrow> 'a io" where
  "reject e w = Some (Inl e, w)"

definition await :: "'a io \<Rightarrow> ('a \<Rightarrow> 'b io) \<Rightarrow> 'b io" where
  "await m k w =
     (case m w of
        None \<Rightarrow> None
      | Some (Inl e, w') \<Rightarrow> Some (Inl e, w')
      | Some (Inr a, w') \<Rightarrow> k a w')"

definition logged :: "call \<Rightarrow> world \<Rightarrow> world" where
  "logged c w = w\<lparr>calls := calls w @ [c]\<rparr>"

subsection \<open>Buffers\<close>

definition Buffer_alloc :: "int \<Rightarrow> byte \<Rightarrow> byte list io" where
  \<comment> \<open>\<^verbatim>\<open>Buffer.alloc(size, fill)\<close> with a byte fill; a negative size throws.\<close>
  "Buffer_alloc n fill =
     (if n < 0 then reject ERR_INVALID_ARG_VALUE else resolve (replicate (nat n) fill))"

definition Buffer_alloc_pattern :: "int \<Rightarrow> byte list \<Rightarrow> byte list io" where
  \<comment> \<open>\<^verbatim>\<open>Buffer.alloc(size, fill)\<close> with a buffer fill: the fill is repeated; an empty fill
      for a buffer that is not empty throws.\<close>
  "Buffer_alloc_pattern n fill =
     (if n < 0 then reject ERR_INVALID_ARG_VALUE
      else if fill = [] \<and> 0 < n then reject ERR_INVALID_ARG_VALUE
      else resolve (map (\<lambda>i. fill ! (i mod length fill)) [0..<nat n]))"

definition Buffer_from :: "int list \<Rightarrow> byte list" where
  \<comment> \<open>\<^verbatim>\<open>Buffer.from(array)\<close>: each entry is taken modulo 256.\<close>
  "Buffer_from xs = map word_of_int xs"

subsection \<open>File system calls\<close>

definition overwrite :: "byte list \<Rightarrow> nat \<Rightarrow> byte list \<Rightarrow> byte list" where
  \<comment> \<open>The bytes \<open>d\<close> stored at offset \<open>pos\<close>; a gap past the end reads as zeros.\<close>
  "overwrite c pos d =
     (if d = [] then c
      else take pos c @ replicate (pos - length c) 0 @ d @ drop (pos + length d) c)"

definition fs_stat_size :: "path \<Rightarrow> int io" where
  "fs_stat_size p w =
     (case files w p of
        None \<Rightarrow> Some (Inl ENOENT, logged (Stat p) w)
      | Some c \<Rightarrow> Some (Inr (int (length c)), logged (Stat p) w))"

definition fs_open :: "path \<Rightarrow> nat io" where
  "fs_open p w =
     (case files w p of
        None \<Rightarrow> Some (Inl ENOENT, logged (Open_rw p) w)
      | Some c \<Rightarrow>
          Some (Inr (next_fd w),
            (logged (Open_rw p) w)
              \<lparr>handles := (handles w)(next_fd w \<mapsto> p), next_fd := Suc (next_fd w)\<rparr>))"

definition fs_close :: "nat \<Rightarrow> unit io" where
  "fs_close d w =
     (case handles w d of
        None \<Rightarrow> Some (Inl EBADF, logged (Close d) w)
      | Some p \<Rightarrow> Some (Inr (), (logged (Close d) w)\<lparr>handles := (handles w)(d := None)\<rparr>))"

definition fs_unlink :: "path \<Rightarrow> unit io" where
  "fs_unlink p w =
     (case files w p of
        None \<Rightarrow> Some (Inl ENOENT, logged (Unlink p) w)
      | Some c \<Rightarrow> Some (Inr (), (logged (Unlink p) w)\<lparr>files := (files w)(p := None)\<rparr>))"

definition fs_rename :: "path \<Rightarrow> path \<Rightarrow> unit io" where
  "fs_rename old new w =
     (case files w old of
        None \<Rightarrow> Some (Inl ENOENT, logged (Rename old new) w)
      | Some c \<Rightarrow>
          Some (Inr (),
            (logged (Rename old new) w)\<lparr>files := ((files w)(old := None))(new \<mapsto> c)\<rparr>))"

definition fs_write :: "nat \<Rightarrow> byte list \<Rightarrow> int \<Rightarrow> int \<Rightarrow> int \<Rightarrow> unit io" where
  \<comment> \<open>\<^verbatim>\<open>fs.write(fd, buffer, offset, length, position)\<close>\<close>
  "fs_write d buffer offset len position w =
     (let w1 = logged (Write d buffer offset len position) w in
      if offset < 0 \<or> len < 0 \<or> position < 0 \<or> int (length buffer) < offset + len
      then Some (Inl ERR_OUT_OF_RANGE, w1)
      else
        case handles w d of
          None \<Rightarrow> Some (Inl EBADF, w1)
        | Some p \<Rightarrow>
            (case files w p of
               None \<Rightarrow> Some (Inl EBADF, w1)
             | Some c \<Rightarrow>
                 Some (Inr (),
                   w1\<lparr>files := (files w)
                     (p \<mapsto> overwrite c (nat position)
                            (take (nat len) (drop (nat offset) buffer)))\<rparr>)))"


definition fs_ftruncate :: "nat \<Rightarrow> int \<Rightarrow> unit io" where
  \<comment> \<open>\<^verbatim>\<open>fs.ftruncate(fd, len)\<close>: cut, or extend with zeros; a negative length counts as 0.\<close>
  "fs_ftruncate d len w =
     (let w1 = logged (Ftruncate d len) w in
      case handles w d of
        None \<Rightarrow> Some (Inl EBADF, w1)
      | Some p \<Rightarrow>
          (case files w p of
             None \<Rightarrow> Some (Inl EBADF, w1)
           | Some c \<Rightarrow>
               Some (Inr (),
                 w1\<lparr>files := (files w)
                   (p \<mapsto> take (nat len) c @ replicate (nat len - length c) 0)\<rparr>)))"

definition fs_readdir :: "path \<Rightarrow> path list io" where
  "fs_readdir p w =
     (case folders w p of
        None \<Rightarrow> Some (Inl ENOENT, logged (Readdir p) w)
      | Some names \<Rightarrow> Some (Inr names, logged (Readdir p) w))"

definition fs_rmdir :: "path \<Rightarrow> unit io" where
  \<comment> \<open>Removing a directory that still has entries fails with \<open>ENOTEMPTY\<close>.\<close>
  "fs_rmdir p w =
     (case folders w p of
        None \<Rightarrow> Some (Inl ENOENT, logged (Rmdir p) w)
      | Some names \<Rightarrow>
          if names \<noteq> [] then Some (Inl ENOTEMPTY, logged (Rmdir p) w)
          else Some (Inr (), (logged (Rmdir p) w)\<lparr>folders := (folders w)(p := None)\<rparr>))"

subsection \<open>Numbers\<close>

text \<open>
  A JavaScript number is an IEEE 754 double. The finite doubles from \<open>2^e\<close> up to
  \<open>2^(e+1)\<close> are the multiples of \<open>2^(e-52)\<close>, and those below \<open>2^(-1022)\<close> are the multiples of
  \<open>2^(-1074)\<close>. An arithmetic operation returns its exact result rounded to the nearest
  double, and to the one with the even multiple when two are equally near: \<open>double x\<close> is
  that rounding of the rational \<open>x\<close>. Overflow to infinity, from \<open>2^1024\<close> on, is left out: no
  number of this program comes near it.
\<close>

definition ilog2 :: "rat \<Rightarrow> int" where
  \<comment> \<open>For \<open>x > 0\<close>, the \<open>e\<close> with \<open>2^e \<le> x < 2^(e+1)\<close>.\<close>
  "ilog2 x = (if 1 \<le> x then bitlen \<lfloor>x\<rfloor> - 1 else - bitlen (\<lceil>1 / x\<rceil> - 1))"

definition binade :: "rat \<Rightarrow> int" where
  \<comment> \<open>The exponent of the binade of \<open>x\<close>; the subnormal numbers share the lowest one.\<close>
  "binade x = max (ilog2 x) (- 1022)"

definition ulp :: "rat \<Rightarrow> rat" where
  \<comment> \<open>The distance between neighbouring doubles around \<open>x\<close>: 52 bits follow the leading one.\<close>
  "ulp x = 2 powi (binade x - 52)"

definition round_even :: "rat \<Rightarrow> int" where
  \<comment> \<open>The nearest integer, the even one at a tie.\<close>
  "round_even q =
     (let n = \<lfloor>q\<rfloor>; d = q - rat_of_int n
      in if d < 1 / 2 then n else if 1 / 2 < d then n + 1 else if even n then n else n + 1)"

definition double :: "rat \<Rightarrow> rat" where
  "double x =
     (if x < 0 then - (rat_of_int (round_even (- x / ulp (- x))) * ulp (- x))
      else rat_of_int (round_even (x / ulp x)) * ulp x)"

subsection \<open>Random sources and events\<close>

definition randomBytes :: "int \<Rightarrow> byte list io" where
  \<comment> \<open>\<^verbatim>\<open>crypto.randomBytes(size)\<close>: the next \<open>size\<close> bytes of the generator's stream.\<close>
  "randomBytes n w =
     (if n < 0 then Some (Inl ERR_OUT_OF_RANGE, logged (RandomBytes n) w)
      else Some (Inr (map (entropy w) [drawn w..<drawn w + nat n]),
             (logged (RandomBytes n) w)\<lparr>drawn := drawn w + nat n\<rparr>))"

definition Math_random :: "rat io" where
  \<comment> \<open>\<^verbatim>\<open>Math.random()\<close>: the next value of a stream of doubles in \<open>[0, 1)\<close>.\<close>
  "Math_random w =
     Some (Inr (uniform w (rolled w)), (logged MathRandom w)\<lparr>rolled := Suc (rolled w)\<rparr>)"

text \<open>
  \<^verbatim>\<open>emit\<close> calls the listeners registered on the emitter for the name of the event, before
  it returns. The program registers one listener: \<^verbatim>\<open>update\<close> of \<^verbatim>\<open>remove_\<close>, for the events
  \<^verbatim>\<open>mark\<close> and \<^verbatim>\<open>init\<close> of the emitter of the removal. Nothing listens on the emitter of
  \<^verbatim>\<open>./events\<close>. The world lists the events of both emitters together, in the order of their
  emission, and holds the variables of \<^verbatim>\<open>update\<close> from the moment it is registered.
\<close>

definition update :: "path \<Rightarrow> Tally \<Rightarrow> Tally" where
  \<comment> \<open>\<^verbatim>\<open>count++; index.push(path)\<close>\<close>
  "update p t = Tally (count t + 1) (index t @ [p])"

primrec deliver :: "event \<Rightarrow> Tally \<Rightarrow> Tally" where
  \<comment> \<open>What the listeners of the removal's emitter do with an event.\<close>
  "deliver (Mark p) t = update p t"
| "deliver (Init p) t = update p t"
| "deliver (Removed p) t = t"
| "deliver (Done p) t = t"

primrec heard :: "emitter \<Rightarrow> event \<Rightarrow> world \<Rightarrow> world" where
  "heard Module_emitter e w = w"
| "heard Own_emitter e w = w\<lparr>tally := map_option (deliver e) (tally w)\<rparr>"

definition emit_on :: "emitter \<Rightarrow> event \<Rightarrow> unit io" where
  \<comment> \<open>\<^verbatim>\<open>eventEmitter.emit(name, path)\<close>\<close>
  "emit_on eventEmitter e w =
     Some (Inr (), heard eventEmitter e (w\<lparr>emitted := emitted w @ [e]\<rparr>))"

definition emit :: "event \<Rightarrow> unit io" where
  \<comment> \<open>\<^verbatim>\<open>eventEmitter.emit(name, path)\<close> in \<^verbatim>\<open>file.ts\<close>, on the emitter of \<^verbatim>\<open>./events\<close>.\<close>
  "emit e w = Some (Inr (), w\<lparr>emitted := emitted w @ [e]\<rparr>)"

section \<open>file.ts\<close>

record FileData =
  fd :: nat
  fileName :: path
  fileSize :: int

text \<open>
  The options object as the callers build it. \<^verbatim>\<open>file.ts\<close> declares and reads
  \<^verbatim>\<open>passes\<close> only (default 1); the standards also pass \<^verbatim>\<open>check\<close>.
\<close>

record Options =
  passes :: "int option"
  check :: "bool option"

definition no_options :: Options where
  "no_options = \<lparr>passes = None, check = None\<rparr>"

definition passes_of :: "Options \<Rightarrow> int" where
  "passes_of opts = (case passes opts of None \<Rightarrow> 1 | Some n \<Rightarrow> n)"

primrec repeat :: "nat \<Rightarrow> unit io \<Rightarrow> unit io" where
  \<comment> \<open>\<^verbatim>\<open>for (let i = 0; i < passes; i++) { await body }\<close>\<close>
  "repeat 0 body = resolve ()"
| "repeat (Suc n) body = await body (\<lambda>_. repeat n body)"

definition init :: "path \<Rightarrow> FileData io" where
  "init name =
     await (fs_stat_size name) (\<lambda>statSize.
     await (fs_open name) (\<lambda>d.
     resolve \<lparr>fd = d, fileName = name, fileSize = statSize\<rparr>))"

definition file_end :: "FileData \<Rightarrow> unit io" where
  "file_end fileData =
     await (fs_close (fd fileData)) (\<lambda>_.
     await (fs_unlink (fileName fileData)) (\<lambda>_.
     emit (Removed (fileName fileData))))"

definition mark :: "path \<Rightarrow> unit io" where
  "mark name = emit (Mark name)"

lemma await_mono [partial_function_mono]:
  assumes "\<And>a w'. mono_option (\<lambda>f. K f a w')"
  shows "mono_option (\<lambda>f. await m (K f) w)"
proof (cases "m w")
  case None
  then show ?thesis by (simp add: await_def monotone_def flat_ord_def)
next
  case (Some r)
  obtain x w' where r: "r = (x, w')" by (cases r)
  show ?thesis
  proof (cases x)
    case (Inl e)
    with Some r show ?thesis by (simp add: await_def monotone_def flat_ord_def)
  next
    case (Inr a)
    with Some r assms [of a w'] show ?thesis by (simp add: await_def)
  qed
qed

text \<open>
  \<^verbatim>\<open>kMaxLength\<close> is imported from Node's \<^verbatim>\<open>buffer\<close> module; it is a parameter here.
  The recursion ends only when it is positive.
\<close>

partial_function (option) writeExtended ::
  "int \<Rightarrow> nat \<Rightarrow> int \<Rightarrow> int \<Rightarrow> (int \<Rightarrow> int \<Rightarrow> byte list io) \<Rightarrow> world \<Rightarrow> unit outcome option"
where
  "writeExtended kMaxLength d sz pos getBuffer w =
     (if sz - pos \<le> kMaxLength then
        await (getBuffer (sz - pos) pos) (\<lambda>data.
        fs_write d data 0 (sz - pos) pos) w
      else
        await (getBuffer kMaxLength pos) (\<lambda>data.
        await (fs_write d data 0 kMaxLength pos) (\<lambda>_.
        writeExtended kMaxLength d sz (pos + kMaxLength) getBuffer)) w)"

definition random :: "int \<Rightarrow> FileData \<Rightarrow> Options \<Rightarrow> unit io" where
  "random kMaxLength fileData opts =
     repeat (nat (passes_of opts))
       (writeExtended kMaxLength (fd fileData) (fileSize fileData) 0
          (\<lambda>bufferSize pos. randomBytes bufferSize))"

definition zeros :: "int \<Rightarrow> FileData \<Rightarrow> Options \<Rightarrow> unit io" where
  "zeros kMaxLength fileData opts =
     repeat (nat (passes_of opts))
       (writeExtended kMaxLength (fd fileData) (fileSize fileData) 0
          (\<lambda>bufferSize pos. Buffer_alloc bufferSize 0x00))"

definition ones :: "int \<Rightarrow> FileData \<Rightarrow> Options \<Rightarrow> unit io" where
  "ones kMaxLength fileData opts =
     repeat (nat (passes_of opts))
       (writeExtended kMaxLength (fd fileData) (fileSize fileData) 0
          (\<lambda>bufferSize pos. Buffer_alloc bufferSize 0xFF))"

definition byte :: "int \<Rightarrow> FileData \<Rightarrow> Options \<Rightarrow> int \<Rightarrow> unit io" where
  "byte kMaxLength fileData opts data =
     repeat (nat (passes_of opts))
       (writeExtended kMaxLength (fd fileData) (fileSize fileData) 0
          (\<lambda>bufferSize pos. Buffer_alloc bufferSize (word_of_int data)))"

definition byteArray :: "int \<Rightarrow> FileData \<Rightarrow> Options \<Rightarrow> int list \<Rightarrow> unit io" where
  "byteArray kMaxLength fileData opts data =
     (let dataConverted = Buffer_from data in
      repeat (nat (passes_of opts))
        (writeExtended kMaxLength (fd fileData) (fileSize fileData) 0
           (\<lambda>bufferSize pos. Buffer_alloc_pattern bufferSize dataConverted)))"

partial_function (option) forByte_loop ::
  "int \<Rightarrow> FileData \<Rightarrow> (int \<Rightarrow> bool) \<Rightarrow> (int \<Rightarrow> int) \<Rightarrow> int \<Rightarrow> world \<Rightarrow> unit outcome option"
where
  "forByte_loop kMaxLength fileData condition increment i w =
     (if condition i then
        await (writeExtended kMaxLength (fd fileData) (fileSize fileData) 0
                 (\<lambda>bufferSize pos. Buffer_alloc bufferSize (word_of_int i)))
          (\<lambda>_. forByte_loop kMaxLength fileData condition increment (increment i)) w
      else resolve () w)"

definition forByte ::
  "int \<Rightarrow> FileData \<Rightarrow> int \<Rightarrow> (int \<Rightarrow> bool) \<Rightarrow> (int \<Rightarrow> int) \<Rightarrow> unit io" where
  "forByte kMaxLength fileData initial condition increment =
     forByte_loop kMaxLength fileData condition increment initial"

definition randomByte :: "int \<Rightarrow> FileData \<Rightarrow> Options \<Rightarrow> unit io" where
  "randomByte kMaxLength fileData opts =
     await (randomBytes 1) (\<lambda>drawn_bytes.
       (let data = (case drawn_bytes of [] \<Rightarrow> 0 | b # _ \<Rightarrow> b) in
        repeat (nat (passes_of opts))
          (writeExtended kMaxLength (fd fileData) (fileSize fileData) 0
             (\<lambda>bufferSize pos. Buffer_alloc bufferSize data))))"



text \<open>
  \<^verbatim>\<open>truncate\<close> computes \<^verbatim>\<open>Math.floor((0.25 + Math.random() * 0.5) * fileSize)\<close> in doubles:
  the product with 0.5, the sum with 0.25 and the product with the size are each rounded.
  The constants 0.25 and 0.5 are doubles as they stand, and so is a size below \<open>2^53\<close>;
  \<^verbatim>\<open>Math.floor\<close> of a double is exact. The loop changes its own variable \<^verbatim>\<open>fileSize\<close> only:
  the session keeps the size it was opened with.
\<close>

definition newSize :: "rat \<Rightarrow> int \<Rightarrow> int" where
  \<comment> \<open>The value of \<^verbatim>\<open>newSize\<close> when \<^verbatim>\<open>Math.random()\<close> has returned \<open>r\<close> and \<^verbatim>\<open>fileSize\<close> is \<open>sz\<close>.\<close>
  "newSize r sz = \<lfloor>double (double (1 / 4 + double (r * (1 / 2))) * rat_of_int sz)\<rfloor>"

primrec truncate_loop :: "nat \<Rightarrow> nat \<Rightarrow> int \<Rightarrow> unit io" where
  "truncate_loop 0 d sz = resolve ()"
| "truncate_loop (Suc n) d sz =
     await Math_random (\<lambda>r.
       await (fs_ftruncate d (newSize r sz)) (\<lambda>_. truncate_loop n d (newSize r sz)))"

definition truncate :: "FileData \<Rightarrow> Options \<Rightarrow> unit io" where
  "truncate fileData opts =
     truncate_loop (nat (passes_of opts)) (fd fileData) (fileSize fileData)"

text \<open>
  \<^verbatim>\<open>rename\<close> builds the new name from 9 random bytes:
  \<^verbatim>\<open>toString('base64')\<close> writes each 3 bytes as 4 digits of 6 bits (with \<^verbatim>\<open>=\<close> padding
  when bytes are left over), then \<^verbatim>\<open>/\<close> becomes \<^verbatim>\<open>0\<close> and \<^verbatim>\<open>+\<close> becomes \<^verbatim>\<open>a\<close>.
  \<^verbatim>\<open>path.dirname\<close> and \<^verbatim>\<open>path.join\<close> of Node's \<^verbatim>\<open>path\<close> module are parameters.
\<close>

definition base64_alphabet :: string where
  "base64_alphabet = ''ABCDEFGHIJKLMNOPQRSTUVWXYZabcdefghijklmnopqrstuvwxyz0123456789+/''"

definition base64_digit :: "nat \<Rightarrow> char" where
  "base64_digit i = base64_alphabet ! (i mod 64)"

fun toString_base64 :: "byte list \<Rightarrow> string" where
  "toString_base64 [] = []"
| "toString_base64 [a] =
     [base64_digit (unat a div 4), base64_digit (unat a mod 4 * 16), CHR ''='', CHR ''='']"
| "toString_base64 [a, b] =
     [base64_digit (unat a div 4), base64_digit (unat a mod 4 * 16 + unat b div 16),
      base64_digit (unat b mod 16 * 4), CHR ''='']"
| "toString_base64 (a # b # c # rest) =
     [base64_digit (unat a div 4), base64_digit (unat a mod 4 * 16 + unat b div 16),
      base64_digit (unat b mod 16 * 4 + unat c div 64), base64_digit (unat c mod 64)]
     @ toString_base64 rest"

definition replace_all :: "char \<Rightarrow> char \<Rightarrow> string \<Rightarrow> string" where
  "replace_all x y s = map (\<lambda>c. if c = x then y else c) s"

definition random_name :: "byte list \<Rightarrow> string" where
  "random_name bytes =
     replace_all (CHR ''+'') (CHR ''a'') (replace_all (CHR ''/'') (CHR ''0'') (toString_base64 bytes))"

definition rename :: "(path \<Rightarrow> path) \<Rightarrow> (path \<Rightarrow> path \<Rightarrow> path) \<Rightarrow> FileData \<Rightarrow> FileData io" where
  "rename path_dirname path_join fileData =
     await (fs_close (fd fileData)) (\<lambda>_.
     await (randomBytes 9) (\<lambda>bytes.
       (let newName = random_name bytes;
            newPath = path_join (path_dirname (fileName fileData)) newName
        in await (fs_rename (fileName fileData) newPath) (\<lambda>_. init newPath))))"

section \<open>dir.ts: the mark protocol for directories\<close>

text \<open>
  \<^verbatim>\<open>folderSet\<close> is the module's set of directories whose first removal attempt has been
  refused. The events go to the emitter the caller hands in.
\<close>

definition folderSet_add :: "path \<Rightarrow> unit io" where
  "folderSet_add p w = Some (Inr (), w\<lparr>folderSet := insert p (folderSet w)\<rparr>)"

definition folderSet_delete :: "path \<Rightarrow> unit io" where
  "folderSet_delete p w = Some (Inr (), w\<lparr>folderSet := folderSet w - {p}\<rparr>)"

definition dir_mark :: "path \<Rightarrow> emitter \<Rightarrow> unit io" where
  "dir_mark folderName eventEmitter w =
     await (fs_readdir folderName) (\<lambda>entries.
       if entries \<noteq> [] then
         (\<lambda>w1. if folderName \<in> folderSet w1 then
                  await (folderSet_delete folderName)
                    (\<lambda>_. emit_on eventEmitter (Mark folderName)) w1
                else
                  await (folderSet_add folderName) (\<lambda>_. fs_rmdir folderName) w1)
       else emit_on eventEmitter (Mark folderName)) w"

section \<open>standards.ts: the file hooks of the standards\<close>

text \<open>
  Each \<^verbatim>\<open>unlink\<close> hook runs its \<^verbatim>\<open>remove\<close> function and hands the outcome to the callback;
  the function below is that \<^verbatim>\<open>remove\<close>.
\<close>

definition checked :: Options where
  \<comment> \<open>\<^verbatim>\<open>{ check: true }\<close>\<close>
  "checked = \<lparr>passes = None, check = Some True\<rparr>"

definition with_passes :: "int \<Rightarrow> Options" where
  \<comment> \<open>\<^verbatim>\<open>{ passes: n }\<close>\<close>
  "with_passes n = \<lparr>passes = Some n, check = None\<rparr>"

definition randomByte_unlink :: "int \<Rightarrow> path \<Rightarrow> unit io" where
  "randomByte_unlink kMaxLength p =
     await (init p) (\<lambda>fileData.
     await (randomByte kMaxLength fileData no_options) (\<lambda>_.
     file_end fileData))"

definition NZSIT_402_unlink :: "int \<Rightarrow> path \<Rightarrow> unit io" where
  "NZSIT_402_unlink kMaxLength p =
     await (init p) (\<lambda>fileData.
     await (randomByte kMaxLength fileData checked) (\<lambda>_.
     file_end fileData))"

definition zeros_unlink :: "int \<Rightarrow> path \<Rightarrow> unit io" where
  "zeros_unlink kMaxLength p =
     await (init p) (\<lambda>fileData.
     await (zeros kMaxLength fileData no_options) (\<lambda>_.
     file_end fileData))"

definition HMG_IS5_unlink :: "int \<Rightarrow> path \<Rightarrow> unit io" where
  "HMG_IS5_unlink kMaxLength p =
     await (init p) (\<lambda>fileData.
     await (zeros kMaxLength fileData no_options) (\<lambda>_.
     await (ones kMaxLength fileData no_options) (\<lambda>_.
     await (random kMaxLength fileData checked) (\<lambda>_.
     file_end fileData))))"

definition DOD_5220_22_M_unlink :: "int \<Rightarrow> path \<Rightarrow> unit io" where
  "DOD_5220_22_M_unlink kMaxLength p =
     await (init p) (\<lambda>fileData.
     await (zeros kMaxLength fileData checked) (\<lambda>_.
     await (ones kMaxLength fileData checked) (\<lambda>_.
     await (random kMaxLength fileData checked) (\<lambda>_.
     file_end fileData))))"

definition gutmann_unlink :: "int \<Rightarrow> path \<Rightarrow> unit io" where
  "gutmann_unlink kMaxLength p =
     await (init p) (\<lambda>fileData.
     await (random kMaxLength fileData (with_passes 4)) (\<lambda>_.
     await (byte kMaxLength fileData no_options 0x55) (\<lambda>_.
     await (byte kMaxLength fileData no_options 0xAA) (\<lambda>_.
     await (byteArray kMaxLength fileData no_options [0x92, 0x49, 0x24]) (\<lambda>_.
     await (byteArray kMaxLength fileData no_options [0x49, 0x24, 0x92]) (\<lambda>_.
     await (byteArray kMaxLength fileData no_options [0x24, 0x92, 0x49]) (\<lambda>_.
     await (forByte kMaxLength fileData 0x00 (\<lambda>i. i < 0xFF) (\<lambda>i. i + 0x11)) (\<lambda>_.
     await (byteArray kMaxLength fileData no_options [0x92, 0x49, 0x24]) (\<lambda>_.
     await (byteArray kMaxLength fileData no_options [0x49, 0x24, 0x92]) (\<lambda>_.
     await (byteArray kMaxLength fileData no_options [0x24, 0x92, 0x49]) (\<lambda>_.
     await (byteArray kMaxLength fileData no_options [0x6D, 0xB6, 0xDB]) (\<lambda>_.
     await (byteArray kMaxLength fileData no_options [0xB6, 0xDB, 0x6D]) (\<lambda>_.
     await (byteArray kMaxLength fileData no_options [0xDB, 0x6D, 0xB6]) (\<lambda>_.
     await (random kMaxLength fileData (with_passes 4)) (\<lambda>_.
     file_end fileData)))))))))))))))"

section \<open>The traversal that calls the hooks\<close>

text \<open>
  The tree is removed by fs-extra's \<^verbatim>\<open>remove\<close>, which is not part of this program. Its
  options may give an \<^verbatim>\<open>unlink\<close> and an \<^verbatim>\<open>rmdir\<close> hook to use in place of \<^verbatim>\<open>fs.unlink\<close> and
  \<^verbatim>\<open>fs.rmdir\<close>. For an entry of the tree it calls the \<^verbatim>\<open>unlink\<close> hook on a file and the
  \<^verbatim>\<open>rmdir\<close> hook on a directory; when that hook fails because the directory is not empty it
  goes through the entries of the directory and then calls the \<^verbatim>\<open>rmdir\<close> hook again. The
  entries are taken one after the other. The tree is what the traversal finds at the path.
\<close>

datatype entry = FileEntry path | DirEntry path "entry list"

datatype Hooks = Hooks (unlink: "(path \<Rightarrow> unit io) option") (rmdir: "(path \<Rightarrow> unit io) option")

definition unlink_of :: "Hooks \<Rightarrow> path \<Rightarrow> unit io" where
  "unlink_of options = (case unlink options of None \<Rightarrow> fs_unlink | Some hook \<Rightarrow> hook)"

definition rmdir_of :: "Hooks \<Rightarrow> path \<Rightarrow> unit io" where
  "rmdir_of options = (case rmdir options of None \<Rightarrow> fs_rmdir | Some hook \<Rightarrow> hook)"

fun rimraf :: "Hooks \<Rightarrow> entry \<Rightarrow> unit io" and rmkids :: "Hooks \<Rightarrow> entry list \<Rightarrow> unit io" where
  "rimraf options (FileEntry p) = unlink_of options p"
| "rimraf options (DirEntry p kids) =
     (\<lambda>w. case rmdir_of options p w of
            None \<Rightarrow> None
          | Some (Inr u, w1) \<Rightarrow> Some (Inr u, w1)
          | Some (Inl e, w1) \<Rightarrow>
              if e = ENOTEMPTY then await (rmkids options kids) (\<lambda>_. rmdir_of options p) w1
              else Some (Inl e, w1))"
| "rmkids options [] = resolve ()"
| "rmkids options (k # ks) = await (rimraf options k) (\<lambda>_. rmkids options ks)"

section \<open>index.ts: counting the paths a removal touches\<close>

text \<open>
  \<^verbatim>\<open>remove_\<close> starts \<^verbatim>\<open>count\<close> at 0 and \<^verbatim>\<open>index\<close> empty, registers \<^verbatim>\<open>update\<close> as the listener
  of the \<^verbatim>\<open>mark\<close> and \<^verbatim>\<open>init\<close> events of its emitter, and awaits \<^verbatim>\<open>fs.remove\<close> with the hooks
  that the standard returns for that emitter. When the traversal has succeeded it emits
  \<^verbatim>\<open>done\<close> on its emitter and resolves with the two variables. It is called by \<^verbatim>\<open>remove\<close>
  only, with the emitter that \<^verbatim>\<open>remove\<close> has just created; one removal runs at a time.
\<close>

definition remove_run :: "path \<Rightarrow> (emitter \<Rightarrow> Hooks) \<Rightarrow> entry \<Rightarrow> Tally io" where
  \<comment> \<open>\<^verbatim>\<open>remove_(path, options, eventEmitter)\<close> with \<open>standard\<close> for \<^verbatim>\<open>options.standard\<close>, when
      \<open>tree\<close> is at \<open>p\<close>.\<close>
  "remove_run p standard tree w =
     await (rimraf (standard Own_emitter) tree) (\<lambda>_.
     await (emit_on Own_emitter (Done p)) (\<lambda>_ w'.
       Some (Inr (case tally w' of None \<Rightarrow> Tally 0 [] | Some t \<Rightarrow> t), w')))
       (w\<lparr>tally := Some (Tally 0 [])\<rparr>)"

text \<open>
  A standard as \<^verbatim>\<open>remove_\<close> calls it: a function from the emitter of the removal to the hooks.
  The hooks of the standard \<^verbatim>\<open>mark\<close> are \<^verbatim>\<open>file.mark\<close> for a file and \<^verbatim>\<open>dir.mark\<close> for a
  directory; \<^verbatim>\<open>dir.mark\<close> takes the emitter in its second argument, \<^verbatim>\<open>file.mark\<close> takes none.
\<close>

definition mark_standard :: "emitter \<Rightarrow> Hooks" where
  "mark_standard eventEmitter =
     Hooks (Some mark) (Some (\<lambda>folderName. dir_mark folderName eventEmitter))"

section \<open>The Gutmann sequence as the specification lists it\<close>

text \<open>
  The passes of the claim, one entry per full-file pass: four random passes, the two constant
  bytes, three byte arrays, the fifteen values of the counter sweep, six byte arrays, four
  random passes. \<open>gutmann_spec\<close> opens the file, runs one \<^verbatim>\<open>writeExtended\<close> over the whole
  file for each entry in this order, then closes and unlinks it.
\<close>

datatype Pass = Random_pass | Byte_pass int | ByteArray_pass "int list"

primrec pattern_of :: "Pass \<Rightarrow> int \<Rightarrow> int \<Rightarrow> byte list io" where
  "pattern_of Random_pass = (\<lambda>bufferSize pos. randomBytes bufferSize)"
| "pattern_of (Byte_pass b) = (\<lambda>bufferSize pos. Buffer_alloc bufferSize (word_of_int b))"
| "pattern_of (ByteArray_pass bs) = (\<lambda>bufferSize pos. Buffer_alloc_pattern bufferSize (Buffer_from bs))"

definition full_pass :: "int \<Rightarrow> FileData \<Rightarrow> Pass \<Rightarrow> unit io" where
  "full_pass kMaxLength fileData ps =
     writeExtended kMaxLength (fd fileData) (fileSize fileData) 0 (pattern_of ps)"

primrec run_passes :: "int \<Rightarrow> FileData \<Rightarrow> Pass list \<Rightarrow> unit io" where
  "run_passes kMaxLength fileData [] = resolve ()"
| "run_passes kMaxLength fileData (ps # rest) =
     await (full_pass kMaxLength fileData ps) (\<lambda>_. run_passes kMaxLength fileData rest)"

definition gutmann_passes_spec :: "Pass list" where
  "gutmann_passes_spec =
     [Random_pass, Random_pass, Random_pass, Random_pass,
      Byte_pass 0x55, Byte_pass 0xAA,
      ByteArray_pass [0x92, 0x49, 0x24], ByteArray_pass [0x49, 0x24, 0x92],
      ByteArray_pass [0x24, 0x92, 0x49],
      Byte_pass 0x00, Byte_pass 0x11, Byte_pass 0x22, Byte_pass 0x33, Byte_pass 0x44,
      Byte_pass 0x55, Byte_pass 0x66, Byte_pass 0x77, Byte_pass 0x88, Byte_pass 0x99,
      Byte_pass 0xAA, Byte_pass 0xBB, Byte_pass 0xCC, Byte_pass 0xDD, Byte_pass 0xEE,
      ByteArray_pass [0x92, 0x49, 0x24], ByteArray_pass [0x49, 0x24, 0x92],
      ByteArray_pass [0x24, 0x92, 0x49], ByteArray_pass [0x6D, 0xB6, 0xDB],
      ByteArray_pass [0xB6, 0xDB, 0x6D], ByteArray_pass [0xDB, 0x6D, 0xB6],
      Random_pass, Random_pass, Random_pass, Random_pass]"

definition gutmann_spec :: "int \<Rightarrow> path \<Rightarrow> unit io" where
  "gutmann_spec kMaxLength p =
     await (init p) (\<lambda>fileData.
     await (run_passes kMaxLength fileData gutmann_passes_spec) (\<lambda>_.
     file_end fileData))"

section \<open>Observations and example worlds\<close>

function chunks :: "int \<Rightarrow> int \<Rightarrow> int \<Rightarrow> (int \<times> int) list" where
  "chunks k sz pos =
     (if sz - pos \<le> k \<or> k \<le> 0 then [(pos, sz - pos)]
      else (pos, k) # chunks k sz (pos + k))"
  by pat_completeness auto
termination
  by (relation "measure (\<lambda>(k, sz, pos). nat (sz - pos))") auto

declare chunks.simps [simp del]

fun write_range :: "call \<Rightarrow> (int \<times> int) list" where
  "write_range (Write d buffer offset len position) = [(position, len)]"
| "write_range _ = []"

definition writes_of :: "call list \<Rightarrow> (int \<times> int) list" where
  "writes_of cs = concat (map write_range cs)"

fun tiles :: "int \<Rightarrow> int \<Rightarrow> (int \<times> int) list \<Rightarrow> bool" where
  "tiles a b [] = (a = b)"
| "tiles a b ((p, l) # ws) = (p = a \<and> 0 \<le> l \<and> tiles (a + l) b ws)"

definition byte_range :: "int \<times> int \<Rightarrow> int set" where
  "byte_range c = {fst c..<fst c + snd c}"

definition idle_world :: world where
  "idle_world =
     \<lparr>files = Map.empty, folders = Map.empty, handles = Map.empty, next_fd = 3,
      entropy = (\<lambda>i. word_of_nat i), drawn = 0, uniform = (\<lambda>i. 0), rolled = 0,
      calls = [], emitted = [], folderSet = {}, tally = None\<rparr>"

definition open_world :: "byte list \<Rightarrow> world" where
  "open_world c =
     idle_world\<lparr>files := [''/tmp/f'' \<mapsto> c], handles := [3 \<mapsto> ''/tmp/f''], next_fd := 4\<rparr>"

definition settled :: "'a outcome option \<Rightarrow> (error + 'a) option" where
  "settled x = map_option fst x"

definition calls_after :: "'a outcome option \<Rightarrow> call list" where
  "calls_after x = (case x of None \<Rightarrow> [] | Some (r, w) \<Rightarrow> calls w)"

definition emitted_after :: "'a outcome option \<Rightarrow> event list" where
  "emitted_after x = (case x of None \<Rightarrow> [] | Some (r, w) \<Rightarrow> emitted w)"

definition folderSet_after :: "'a outcome option \<Rightarrow> path set" where
  "folderSet_after x = (case x of None \<Rightarrow> {} | Some (r, w) \<Rightarrow> folderSet w)"

definition content_after :: "'a outcome option \<Rightarrow> path \<Rightarrow> byte list option" where
  "content_after x p = (case x of None \<Rightarrow> None | Some (r, w) \<Rightarrow> files w p)"

text \<open>
  The calls of one constant-fill pass, the arrow function that \<^verbatim>\<open>complementary\<close> passes to
  \<^verbatim>\<open>writeExtended\<close> under a name, and the calls of one complement pass over the chunks \<open>cs\<close>
  of a file that held \<open>c\<close>: each chunk is read, then written back complemented.
\<close>

definition fill_writes :: "int \<Rightarrow> nat \<Rightarrow> int \<Rightarrow> byte \<Rightarrow> call list" where
  "fill_writes k d sz b = map (\<lambda>(q, l). Write d (replicate (nat l) b) 0 l q) (chunks k sz 0)"



text \<open>
  For \<^verbatim>\<open>truncate\<close>: the sizes that the draws \<open>rs\<close> give one after the other from the size
  \<open>s\<close>; the sizes \<open>ns\<close> shrink from \<open>s\<close> when each is at least a quarter of the size before,
  rounded down, and at most three quarters of it, so not larger, and smaller when the size
  before is positive; the words of the claim, strictly between 25% and 75%; and the calls of
  the passes that set the sizes \<open>sizes\<close>.
\<close>

fun truncate_sizes :: "int \<Rightarrow> rat list \<Rightarrow> int list" where
  "truncate_sizes s [] = []"
| "truncate_sizes s (r # rs) = newSize r s # truncate_sizes (newSize r s) rs"

fun shrinks :: "int \<Rightarrow> int list \<Rightarrow> bool" where
  "shrinks s [] = True"
| "shrinks s (n # ns) =
     (s div 4 \<le> n \<and> 4 * n \<le> 3 * s \<and> n \<le> s \<and> (0 < s \<longrightarrow> n < s) \<and> shrinks n ns)"

definition strictly_between_quarters :: "int \<Rightarrow> int \<Rightarrow> bool" where
  "strictly_between_quarters s n =
     (rat_of_int s * (1 / 4) < rat_of_int n \<and> rat_of_int n < rat_of_int s * (3 / 4))"

definition truncate_calls :: "nat \<Rightarrow> int list \<Rightarrow> call list" where
  "truncate_calls d sizes = concat (map (\<lambda>n. [MathRandom, Ftruncate d n]) sizes)"

text \<open>The letters and digits: no path separator, nothing a shell or a file system escapes.\<close>

definition safe_alphabet :: string where
  "safe_alphabet = ''ABCDEFGHIJKLMNOPQRSTUVWXYZabcdefghijklmnopqrstuvwxyz0123456789''"

text \<open>
  A world that holds one file and no open descriptor, and a world with a directory of two
  files.
\<close>

definition stored_world :: "byte list \<Rightarrow> world" where
  "stored_world c = idle_world\<lparr>files := [''/tmp/f'' \<mapsto> c]\<rparr>"

definition tree_world :: world where
  "tree_world = idle_world\<lparr>folders := [''/d'' \<mapsto> [''a'', ''b'']],
     files := [''/d/a'' \<mapsto> [], ''/d/b'' \<mapsto> []]\<rparr>"


text \<open>
  For the traversal: the directories of the tree are directories of the world and have
  entries exactly when the tree gives them children; the directories of a tree; no directory
  lies below itself; and the mark events of a tree, the children before their directory.
\<close>

fun shaped :: "(path \<Rightarrow> path list option) \<Rightarrow> entry \<Rightarrow> bool" where
  "shaped listing (FileEntry p) = True"
| "shaped listing (DirEntry p kids) =
     ((case listing p of None \<Rightarrow> False | Some names \<Rightarrow> (names = []) = (kids = []))
      \<and> list_all (shaped listing) kids)"

fun dirs_of :: "entry \<Rightarrow> path set" where
  "dirs_of (FileEntry p) = {}"
| "dirs_of (DirEntry p kids) = insert p (\<Union>k \<in> set kids. dirs_of k)"

fun well_nested :: "entry \<Rightarrow> bool" where
  "well_nested (FileEntry p) = True"
| "well_nested (DirEntry p kids) =
     (p \<notin> (\<Union>k \<in> set kids. dirs_of k) \<and> list_all well_nested kids)"

fun marks :: "entry \<Rightarrow> event list" where
  "marks (FileEntry p) = [Mark p]"
| "marks (DirEntry p kids) = concat (map marks kids) @ [Mark p]"

text \<open>
  For the count and the index: the directories of a tree in the order of their \<^verbatim>\<open>mark\<close>
  events, and what is left in the variables of a listener, if one is registered, when the
  \<^verbatim>\<open>mark\<close> events of the paths \<open>ps\<close> have been emitted on \<open>eventEmitter\<close>.
\<close>

fun dir_marks :: "entry \<Rightarrow> path list" where
  "dir_marks (FileEntry p) = []"
| "dir_marks (DirEntry p kids) = concat (map dir_marks kids) @ [p]"

primrec after_marks :: "emitter \<Rightarrow> path list \<Rightarrow> Tally option \<Rightarrow> Tally option" where
  "after_marks Module_emitter ps listener = listener"
| "after_marks Own_emitter ps listener =
     map_option (\<lambda>t. Tally (count t + int (length ps)) (index t @ ps)) listener"

section \<open>The chunked writer\<close>

lemmas world_eval =
  idle_world_def open_world_def settled_def calls_after_def content_after_def
  await_def resolve_def reject_def logged_def Buffer_alloc_def fs_write_def
  overwrite_def Let_def

lemma writes_of_append [simp]: "writes_of (xs @ ys) = writes_of xs @ writes_of ys"
  by (simp add: writes_of_def)

lemma writes_of_Nil [simp]: "writes_of [] = []"
  by (simp add: writes_of_def)

lemma writes_of_Cons [simp]: "writes_of (c # cs) = write_range c @ writes_of cs"
  by (simp add: writes_of_def)

lemma fs_write_result:
  "\<exists>r w'. fs_write d b off len pos w = Some (r, w')
      \<and> calls w' = calls w @ [Write d b off len pos]"
  by (auto simp: fs_write_def Let_def logged_def split: option.splits)

lemma writeExtended_chunks_prefix:
  assumes k: "0 < k"
    and total: "\<And>n p w. getBuffer n p w \<noteq> None"
    and quiet: "\<And>n p w r w'. getBuffer n p w = Some (r, w') \<Longrightarrow> writes_of (calls w') = writes_of (calls w)"
  shows "\<exists>r w' n. writeExtended k d sz pos getBuffer w = Some (r, w')
           \<and> writes_of (calls w') = writes_of (calls w) @ take n (chunks k sz pos)
           \<and> (r = Inr () \<longrightarrow> writes_of (calls w') = writes_of (calls w) @ chunks k sz pos)"
  using k
proof (induction k sz pos arbitrary: w rule: chunks.induct)
  case (1 k sz pos)
  show ?case
  proof (cases "sz - pos \<le> k")
    case True
    have ch: "chunks k sz pos = [(pos, sz - pos)]"
      using True by (simp add: chunks.simps [of k sz pos])
    obtain r1 w1 where g: "getBuffer (sz - pos) pos w = Some (r1, w1)"
      using total [of "sz - pos" pos w] by (cases "getBuffer (sz - pos) pos w") auto
    have q: "writes_of (calls w1) = writes_of (calls w)" using quiet [OF g] .
    show ?thesis
    proof (cases r1)
      case (Inl e)
      have "writeExtended k d sz pos getBuffer w = Some (Inl e, w1)"
        using g Inl True by (subst writeExtended.simps) (simp add: await_def)
      moreover have "writes_of (calls w1) = writes_of (calls w) @ take 0 (chunks k sz pos)"
        using q by simp
      ultimately show ?thesis by blast
    next
      case (Inr data)
      obtain r2 w2 where f: "fs_write d data 0 (sz - pos) pos w1 = Some (r2, w2)"
        and c: "calls w2 = calls w1 @ [Write d data 0 (sz - pos) pos]"
        using fs_write_result by blast
      have "writeExtended k d sz pos getBuffer w = Some (r2, w2)"
        using g Inr f True by (subst writeExtended.simps) (simp add: await_def)
      moreover have "writes_of (calls w2) = writes_of (calls w) @ chunks k sz pos"
        using c q by (simp add: ch)
      moreover have "writes_of (calls w2) = writes_of (calls w) @ take 1 (chunks k sz pos)"
        using c q by (simp add: ch)
      ultimately show ?thesis by blast
    qed
  next
    case False
    with \<open>0 < k\<close> have rec: "\<not> (sz - pos \<le> k \<or> k \<le> 0)" by simp
    have ch: "chunks k sz pos = (pos, k) # chunks k sz (pos + k)"
      using rec by (simp add: chunks.simps [of k sz pos])
    obtain r1 w1 where g: "getBuffer k pos w = Some (r1, w1)"
      using total [of k pos w] by (cases "getBuffer k pos w") auto
    have q: "writes_of (calls w1) = writes_of (calls w)" using quiet [OF g] .
    show ?thesis
    proof (cases r1)
      case (Inl e)
      have "writeExtended k d sz pos getBuffer w = Some (Inl e, w1)"
        using g Inl False by (subst writeExtended.simps) (simp add: await_def)
      moreover have "writes_of (calls w1) = writes_of (calls w) @ take 0 (chunks k sz pos)"
        using q by simp
      ultimately show ?thesis by blast
    next
      case (Inr data)
      obtain r2 w2 where f: "fs_write d data 0 k pos w1 = Some (r2, w2)"
        and c: "calls w2 = calls w1 @ [Write d data 0 k pos]"
        using fs_write_result by blast
      have w2: "writes_of (calls w2) = writes_of (calls w) @ [(pos, k)]"
        using c q by simp
      show ?thesis
      proof (cases r2)
        case (Inl e)
        have "writeExtended k d sz pos getBuffer w = Some (Inl e, w2)"
          using g \<open>r1 = Inr data\<close> f Inl False
          by (subst writeExtended.simps) (simp add: await_def)
        moreover have "writes_of (calls w2) = writes_of (calls w) @ take 1 (chunks k sz pos)"
          using w2 by (simp add: ch)
        ultimately show ?thesis by blast
      next
        case (Inr u)
        have step: "writeExtended k d sz pos getBuffer w
                    = writeExtended k d sz (pos + k) getBuffer w2"
          using g \<open>r1 = Inr data\<close> f Inr False
          by (subst writeExtended.simps) (simp add: await_def)
        from "1.IH" [OF rec \<open>0 < k\<close>, of w2]
        obtain r w' n where
          r: "writeExtended k d sz (pos + k) getBuffer w2 = Some (r, w')"
          and p: "writes_of (calls w') = writes_of (calls w2) @ take n (chunks k sz (pos + k))"
          and l: "r = Inr () \<longrightarrow> writes_of (calls w') = writes_of (calls w2) @ chunks k sz (pos + k)"
          by blast
        have "writes_of (calls w') = writes_of (calls w) @ take (Suc n) (chunks k sz pos)"
          using p w2 by (simp add: ch)
        moreover have "r = Inr () \<longrightarrow> writes_of (calls w') = writes_of (calls w) @ chunks k sz pos"
          using l w2 by (simp add: ch)
        ultimately show ?thesis using step r by metis
      qed
    qed
  qed
qed

lemma tiles_chunks: "0 < k \<Longrightarrow> pos \<le> sz \<Longrightarrow> tiles pos sz (chunks k sz pos)"
proof (induction k sz pos rule: chunks.induct)
  case (1 k sz pos)
  show ?case
  proof (cases "sz - pos \<le> k")
    case True
    with "1.prems" show ?thesis by (simp add: chunks.simps [of k sz pos])
  next
    case False
    with "1.prems" "1.IH" show ?thesis by (simp add: chunks.simps [of k sz pos])
  qed
qed

lemma chunks_length: "0 < k \<Longrightarrow> (p, l) \<in> set (chunks k sz pos) \<Longrightarrow> l = min (sz - p) k"
proof (induction k sz pos rule: chunks.induct)
  case (1 k sz pos)
  show ?case
  proof (cases "sz - pos \<le> k")
    case True
    with "1.prems" show ?thesis by (simp add: chunks.simps [of k sz pos])
  next
    case False
    with "1.prems" "1.IH" show ?thesis
      by (auto simp: chunks.simps [of k sz pos] split: if_splits)
  qed
qed

lemma tiles_bounds: "tiles a b ws \<Longrightarrow> a \<le> b"
  by (induction a b ws rule: tiles.induct) auto

lemma tiles_inside: "tiles a b ws \<Longrightarrow> c \<in> set ws \<Longrightarrow> a \<le> fst c \<and> fst c + snd c \<le> b"
proof (induction ws arbitrary: a)
  case Nil
  then show ?case by simp
next
  case (Cons x ws)
  obtain p l where x: "x = (p, l)" by (cases x)
  from Cons.prems x have t: "p = a" "0 \<le> l" "tiles (a + l) b ws" by simp_all
  show ?case
  proof (cases "c = x")
    case True
    with x t tiles_bounds [OF t(3)] show ?thesis by simp
  next
    case False
    with Cons.prems have "c \<in> set ws" by simp
    from Cons.IH [OF t(3) this] t show ?thesis by simp
  qed
qed

lemma tiles_cover: "tiles a b ws \<Longrightarrow> (\<Union>c \<in> set ws. byte_range c) = {a..<b}"
proof (induction ws arbitrary: a)
  case Nil
  then show ?case by simp
next
  case (Cons x ws)
  obtain p l where x: "x = (p, l)" by (cases x)
  from Cons.prems x have t: "p = a" "0 \<le> l" "tiles (a + l) b ws" by simp_all
  have "(\<Union>c \<in> set ws. byte_range c) = {a + l..<b}" using Cons.IH [OF t(3)] .
  moreover have "a + l \<le> b" using tiles_bounds [OF t(3)] .
  ultimately show ?case using x t by (auto simp: byte_range_def)
qed

lemma tiles_disjoint:
  "tiles a b ws \<Longrightarrow> i < j \<Longrightarrow> j < length ws \<Longrightarrow> byte_range (ws ! i) \<inter> byte_range (ws ! j) = {}"
proof (induction ws arbitrary: a i j)
  case Nil
  then show ?case by simp
next
  case (Cons x ws)
  obtain p l where x: "x = (p, l)" by (cases x)
  from Cons.prems x have t: "p = a" "0 \<le> l" "tiles (a + l) b ws" by simp_all
  from Cons.prems obtain j' where j: "j = Suc j'" "j' < length ws" by (cases j) auto
  show ?case
  proof (cases i)
    case 0
    have "ws ! j' \<in> set ws" using j by simp
    from tiles_inside [OF t(3) this] have "a + l \<le> fst (ws ! j')" by simp
    with 0 j x t show ?thesis by (auto simp: byte_range_def)
  next
    case (Suc i')
    with Cons.prems j have "i' < j'" by simp
    from Cons.IH [OF t(3) this j(2)] Suc j show ?thesis by simp
  qed
qed

text \<open>
  Claim C1. For every descriptor, every size \<open>sz \<ge> 0\<close> and every pattern function that
  settles and issues no write of its own, \<^verbatim>\<open>writeExtended(fd, size, 0, getBuffer)\<close> settles
  when \<^verbatim>\<open>kMaxLength\<close> is positive. There is a sequence \<open>ws\<close> of chunks, consecutive from 0 to
  \<open>sz\<close> (\<open>tiles\<close>), each of the length \<open>min (sz - cursor) kMaxLength\<close>, whose byte ranges
  together are exactly \<open>[0, sz)\<close> and do not overlap, such that the writes issued are
  always the first chunks of \<open>ws\<close>, in order, and are all of \<open>ws\<close> when the call resolves
  (it stops early only when the pattern function or a write is rejected). Nothing bounds the
  number of chunks.
\<close>

theorem writeExtended_covers_range:
  assumes "0 < kMaxLength" and "0 \<le> sz"
    and "\<And>n p w. getBuffer n p w \<noteq> None"
    and "\<And>n p w r w'. getBuffer n p w = Some (r, w') \<Longrightarrow> writes_of (calls w') = writes_of (calls w)"
  shows "\<exists>r w' ws. writeExtended kMaxLength d sz 0 getBuffer w = Some (r, w')
           \<and> tiles 0 sz ws
           \<and> (\<forall>c \<in> set ws. snd c = min (sz - fst c) kMaxLength)
           \<and> (\<Union>c \<in> set ws. byte_range c) = {0..<sz}
           \<and> (\<forall>i j. i < j \<and> j < length ws \<longrightarrow>
                 byte_range (ws ! i) \<inter> byte_range (ws ! j) = {})
           \<and> (\<exists>n. writes_of (calls w') = writes_of (calls w) @ take n ws)
           \<and> (r = Inr () \<longrightarrow> writes_of (calls w') = writes_of (calls w) @ ws)"
proof -
  have "\<exists>r w' n. writeExtended kMaxLength d sz 0 getBuffer w = Some (r, w')
           \<and> writes_of (calls w') = writes_of (calls w) @ take n (chunks kMaxLength sz 0)
           \<and> (r = Inr () \<longrightarrow>
                 writes_of (calls w') = writes_of (calls w) @ chunks kMaxLength sz 0)"
    by (rule writeExtended_chunks_prefix [OF assms(1) assms(3)]) (rule assms(4))
  then obtain r w' n where run: "writeExtended kMaxLength d sz 0 getBuffer w = Some (r, w')"
    and pre: "writes_of (calls w') = writes_of (calls w) @ take n (chunks kMaxLength sz 0)"
    and log: "r = Inr () \<longrightarrow> writes_of (calls w') = writes_of (calls w) @ chunks kMaxLength sz 0"
    by blast
  have t: "tiles 0 sz (chunks kMaxLength sz 0)"
    using tiles_chunks assms(1,2) by simp
  have l: "\<forall>c \<in> set (chunks kMaxLength sz 0). snd c = min (sz - fst c) kMaxLength"
    using chunks_length [OF assms(1)] by auto
  have c: "(\<Union>c \<in> set (chunks kMaxLength sz 0). byte_range c) = {0..<sz}"
    using tiles_cover [OF t] .
  have d: "\<forall>i j. i < j \<and> j < length (chunks kMaxLength sz 0) \<longrightarrow>
      byte_range (chunks kMaxLength sz 0 ! i) \<inter> byte_range (chunks kMaxLength sz 0 ! j) = {}"
    using tiles_disjoint [OF t] by blast
  from run pre log t l c d show ?thesis by blast
qed

theorem writeExtended_covers_range_witness:
  "settled (writeExtended 2 3 5 0 (\<lambda>n p. Buffer_alloc n 0) (open_world [1, 2, 3, 4, 5]))
     = Some (Inr ())
   \<and> writes_of (calls_after
        (writeExtended 2 3 5 0 (\<lambda>n p. Buffer_alloc n 0) (open_world [1, 2, 3, 4, 5])))
     = [(0, 2), (2, 2), (4, 1)]
   \<and> tiles 0 5 [(0, 2), (2, 2), (4, 1)]
   \<and> byte_range (0, 2) \<union> byte_range (2, 2) \<union> byte_range (4, 1) = {0..<5}"
proof -
  have k: "(0::int) < 2" and s: "(0::int) \<le> 5" by simp_all
  have total: "\<And>n p w. Buffer_alloc n 0 w \<noteq> None"
    by (simp add: Buffer_alloc_def resolve_def reject_def)
  have quiet: "\<And>n p w r w'. Buffer_alloc n 0 w = Some (r, w')
      \<Longrightarrow> writes_of (calls w') = writes_of (calls w)"
    by (auto simp: Buffer_alloc_def resolve_def reject_def split: if_splits)
  have run: "writeExtended 2 3 5 0 (\<lambda>n p. Buffer_alloc n 0) (open_world [1, 2, 3, 4, 5])
      = Some (Inr (), (open_world [1, 2, 3, 4, 5])
          \<lparr>files := [''/tmp/f'' \<mapsto> [0, 0, 0, 0, 0]],
           calls := [Write 3 [0, 0] 0 2 0, Write 3 [0, 0] 0 2 2, Write 3 [0] 0 1 4]\<rparr>)"
    by (simp add: writeExtended.simps world_eval eval_nat_numeral)
  from writeExtended_covers_range [of 2 5 "\<lambda>n p. Buffer_alloc n 0" 3 "open_world [1, 2, 3, 4, 5]",
      OF k s total quiet] run
  show ?thesis
    by (auto simp: settled_def calls_after_def byte_range_def)
qed

text \<open>
  Claim C8, as the code has it. With size 0 the first branch is taken (\<open>0 - 0 \<le> kMaxLength\<close>):
  \<^verbatim>\<open>writeExtended\<close> asks the pattern function for a buffer of 0 bytes at offset 0 and, when
  that resolves and the descriptor is open, issues exactly one \<^verbatim>\<open>fs.write\<close>, of length 0 at
  position 0, and resolves. The content of every file is left unchanged.
\<close>

theorem writeExtended_size_zero_one_empty_write:
  assumes "0 \<le> kMaxLength"
    and "getBuffer 0 0 w = Some (Inr data, w1)"
    and "handles w1 d = Some p" and "files w1 p = Some c"
  shows "\<exists>w'. writeExtended kMaxLength d 0 0 getBuffer w = Some (Inr (), w')
           \<and> calls w' = calls w1 @ [Write d data 0 0 0]
           \<and> files w' = files w1"
proof -
  have "(files w1)(p \<mapsto> c) = files w1"
    using assms(4) by (rule map_upd_triv)
  with assms show ?thesis
    by (subst writeExtended.simps)
       (simp add: await_def fs_write_def logged_def overwrite_def Let_def)
qed

text \<open>
  The claim as stated says that no write is issued. On a file opened as descriptor 3, with
  the zero-fill pattern, the call log is empty before and holds one write call after.
\<close>

theorem writeExtended_size_zero_counterexample:
  "settled (writeExtended 2 3 0 0 (\<lambda>n p. Buffer_alloc n 0) (open_world [1, 2, 3])) = Some (Inr ())
   \<and> calls (open_world [1, 2, 3]) = []
   \<and> calls_after (writeExtended 2 3 0 0 (\<lambda>n p. Buffer_alloc n 0) (open_world [1, 2, 3]))
       = [Write 3 [] 0 0 0]"
  by (simp add: writeExtended.simps world_eval)

theorem writeExtended_size_zero_witness:
  "calls_after (writeExtended 1 3 0 0 (\<lambda>n p. Buffer_alloc n 0xFF) (open_world [7, 8]))
       = [Write 3 [] 0 0 0]
   \<and> content_after (writeExtended 1 3 0 0 (\<lambda>n p. Buffer_alloc n 0xFF) (open_world [7, 8])) ''/tmp/f''
       = Some [7, 8]"
proof -
  have k: "(0::int) \<le> 1" by simp
  have g: "Buffer_alloc 0 0xFF (open_world [7, 8]) = Some (Inr [], open_world [7, 8])"
    by (simp add: Buffer_alloc_def resolve_def)
  have h: "handles (open_world [7, 8]) 3 = Some ''/tmp/f''"
    by (simp add: open_world_def)
  have f: "files (open_world [7, 8]) ''/tmp/f'' = Some [7, 8]"
    by (simp add: open_world_def)
  from writeExtended_size_zero_one_empty_write
    [of 1 "\<lambda>n p. Buffer_alloc n 0xFF" "open_world [7, 8]" "[]" "open_world [7, 8]" 3 "''/tmp/f''" "[7, 8]",
     OF k g h f]
  show ?thesis
    by (auto simp: calls_after_def content_after_def open_world_def idle_world_def)
qed

section \<open>Passes over a whole file\<close>

lemma fs_write_stores:
  assumes "handles w d = Some p" and "files w p = Some c"
    and "0 \<le> len" and "0 \<le> pos" and "int (length data) = len" and "nat pos + length data \<le> length c"
  shows "fs_write d data 0 len pos w =
     Some (Inr (), w\<lparr>files := (files w)(p \<mapsto> take (nat pos) c @ data @ drop (nat pos + length data) c),
                     calls := calls w @ [Write d data 0 len pos]\<rparr>)"
proof -
  have t: "take (nat len) data = data" using assms(5) by auto
  have n: "nat pos - length c = 0" using assms(6) by simp
  have "overwrite c (nat pos) data = take (nat pos) c @ data @ drop (nat pos + length data) c"
  proof (cases "data = []")
    case True
    then show ?thesis by (simp add: overwrite_def)
  next
    case False
    then show ?thesis using n by (simp add: overwrite_def)
  qed
  with assms t show ?thesis
    by (simp add: fs_write_def logged_def Let_def)
qed

lemma writeExtended_pure:
  assumes k: "0 < k"
    and gb: "\<And>n q w. 0 \<le> n \<Longrightarrow> getBuffer n q w = Some (Inr (g n q), w)"
    and len: "\<And>n q. 0 \<le> n \<Longrightarrow> length (g n q) = nat n"
    and h: "handles w d = Some p" and f: "files w p = Some c"
    and pos: "0 \<le> pos" "pos \<le> sz" and sz: "sz = int (length c)"
  shows "writeExtended k d sz pos getBuffer w =
     Some (Inr (),
       w\<lparr>files := (files w)
            (p \<mapsto> take (nat pos) c @ concat (map (\<lambda>(q, l). g l q) (chunks k sz pos))),
         calls := calls w @ map (\<lambda>(q, l). Write d (g l q) 0 l q) (chunks k sz pos)\<rparr>)"
  using k h f pos sz
proof (induction k sz pos arbitrary: w c rule: chunks.induct)
  case (1 k sz pos)
  show ?case
  proof (cases "sz - pos \<le> k")
    case True
    let ?data = "g (sz - pos) pos"
    have n: "0 \<le> sz - pos" using "1.prems" by simp
    have l: "int (length ?data) = sz - pos" using len [OF n] n by simp
    have fit: "nat pos + length ?data = length c" using l "1.prems" by linarith
    have w: "fs_write d ?data 0 (sz - pos) pos w =
       Some (Inr (), w\<lparr>files := (files w)(p \<mapsto> take (nat pos) c @ ?data @ drop (nat pos + length ?data) c),
                     calls := calls w @ [Write d ?data 0 (sz - pos) pos]\<rparr>)"
      using fs_write_stores [of w d p c "sz - pos" pos ?data] "1.prems" n l fit by simp
    show ?thesis
      using True w gb [OF n, of pos w] fit
      by (subst writeExtended.simps) (simp add: await_def chunks.simps [of k sz pos])
  next
    case False
    with \<open>0 < k\<close> have rec: "\<not> (sz - pos \<le> k \<or> k \<le> 0)" by simp
    let ?data = "g k pos"
    have n: "0 \<le> k" using \<open>0 < k\<close> by simp
    have l: "int (length ?data) = k" using len [OF n] n by simp
    have fit: "nat pos + length ?data \<le> length c" using l False "1.prems" by linarith
    define c1 where "c1 = take (nat pos) c @ ?data @ drop (nat pos + length ?data) c"
    define w1 where "w1 = w\<lparr>files := (files w)(p \<mapsto> c1),
                     calls := calls w @ [Write d ?data 0 k pos]\<rparr>"
    have w: "fs_write d ?data 0 k pos w = Some (Inr (), w1)"
      unfolding w1_def c1_def
      using fs_write_stores [of w d p c k pos ?data] "1.prems" n l fit by simp
    have step: "writeExtended k d sz pos getBuffer w
                = writeExtended k d sz (pos + k) getBuffer w1"
      using False w gb [OF n, of pos w]
      by (subst writeExtended.simps) (simp add: await_def)
    have lc1: "length c1 = length c" using fit by (simp add: c1_def)
    have tk: "take (nat (pos + k)) c1 = take (nat pos) c @ ?data"
    proof -
      have "nat (pos + k) = length (take (nat pos) c @ ?data)"
        using l fit "1.prems" by (simp add: nat_add_distrib)
      then show ?thesis unfolding c1_def by (metis append.assoc append_eq_conv_conj)
    qed
    have ih: "writeExtended k d sz (pos + k) getBuffer w1 =
      Some (Inr (),
        w1\<lparr>files := (files w1)
             (p \<mapsto> take (nat (pos + k)) c1 @ concat (map (\<lambda>(q, l). g l q) (chunks k sz (pos + k)))),
           calls := calls w1 @ map (\<lambda>(q, l). Write d (g l q) 0 l q) (chunks k sz (pos + k))\<rparr>)"
    proof (rule "1.IH" [OF rec \<open>0 < k\<close>])
      show "handles w1 d = Some p" using "1.prems" by (simp add: w1_def)
      show "files w1 p = Some c1" by (simp add: w1_def)
      show "0 \<le> pos + k" using "1.prems" \<open>0 < k\<close> by simp
      show "pos + k \<le> sz" using False by simp
      show "sz = int (length c1)" using "1.prems" lc1 by simp
    qed
    have F: "(files w1)(p \<mapsto> take (nat (pos + k)) c1
                 @ concat (map (\<lambda>(q, l). g l q) (chunks k sz (pos + k))))
           = (files w)(p \<mapsto> take (nat pos) c
                 @ concat (map (\<lambda>(q, l). g l q) (chunks k sz pos)))"
      using rec tk by (simp add: chunks.simps [of k sz pos] w1_def)
    have C: "calls w1 @ map (\<lambda>(q, l). Write d (g l q) 0 l q) (chunks k sz (pos + k))
           = calls w @ map (\<lambda>(q, l). Write d (g l q) 0 l q) (chunks k sz pos)"
      using rec by (simp add: chunks.simps [of k sz pos] w1_def)
    show ?thesis
      unfolding step ih F C by (simp add: w1_def del: fun_upd_apply)
  qed
qed


lemma concat_chunks_fill:
  "0 < k \<Longrightarrow> pos \<le> sz \<Longrightarrow>
     concat (map (\<lambda>(q, l). replicate (nat l) b) (chunks k sz pos)) = replicate (nat (sz - pos)) b"
proof (induction k sz pos rule: chunks.induct)
  case (1 k sz pos)
  show ?case
  proof (cases "sz - pos \<le> k")
    case True
    then show ?thesis by (simp add: chunks.simps [of k sz pos])
  next
    case False
    with "1.prems" have rec: "\<not> (sz - pos \<le> k \<or> k \<le> 0)" by simp
    have "nat (sz - pos) = nat k + nat (sz - (pos + k))" using False "1.prems" by simp
    then show ?thesis
      using "1.IH" [OF rec] "1.prems" False rec
      by (simp add: chunks.simps [of k sz pos] replicate_add)
  qed
qed

lemma writeExtended_fill:
  assumes "0 < k" and "handles w d = Some p" and "files w p = Some c" and "sz = int (length c)"
  shows "writeExtended k d sz 0 (\<lambda>n q. Buffer_alloc n b) w =
     Some (Inr (), w\<lparr>files := (files w)(p \<mapsto> replicate (length c) b),
                     calls := calls w @ fill_writes k d sz b\<rparr>)"
proof -
  have "writeExtended k d sz 0 (\<lambda>n q. Buffer_alloc n b) w =
     Some (Inr (),
       w\<lparr>files := (files w)
            (p \<mapsto> take (nat 0) c
               @ concat (map (\<lambda>(q, l). replicate (nat l) b) (chunks k sz 0))),
         calls := calls w @ map (\<lambda>(q, l). Write d (replicate (nat l) b) 0 l q) (chunks k sz 0)\<rparr>)"
    by (rule writeExtended_pure [where g = "\<lambda>n q. replicate (nat n) b"])
       (use assms in \<open>simp_all add: Buffer_alloc_def resolve_def\<close>)
  then show ?thesis
    using concat_chunks_fill [of k 0 sz b] assms by (simp add: fill_writes_def)
qed

lemma repeat_fill:
  assumes "0 < k" and "handles w d = Some p" and "files w p = Some c" and "sz = int (length c)"
  shows "repeat m (writeExtended k d sz 0 (\<lambda>n q. Buffer_alloc n b)) w =
     Some (Inr (), w\<lparr>files := (files w)(p \<mapsto> (if m = 0 then c else replicate (length c) b)),
                     calls := calls w @ concat (replicate m (fill_writes k d sz b))\<rparr>)"
  using assms
proof (induction m arbitrary: w c)
  case 0
  have "(files w)(p \<mapsto> c) = files w" using "0.prems"(3) by (rule map_upd_triv)
  then show ?case by (simp add: resolve_def)
next
  case (Suc m)
  define w1 where "w1 = w\<lparr>files := (files w)(p \<mapsto> replicate (length c) b),
                     calls := calls w @ fill_writes k d sz b\<rparr>"
  have one: "writeExtended k d sz 0 (\<lambda>n q. Buffer_alloc n b) w = Some (Inr (), w1)"
    unfolding w1_def using Suc.prems by (rule writeExtended_fill)
  have rest: "repeat m (writeExtended k d sz 0 (\<lambda>n q. Buffer_alloc n b)) w1 =
     Some (Inr (), w1\<lparr>files := (files w1)(p \<mapsto> (if m = 0 then replicate (length c) b
                                                  else replicate (length (replicate (length c) b)) b)),
                     calls := calls w1 @ concat (replicate m (fill_writes k d sz b))\<rparr>)"
  proof (rule Suc.IH [OF \<open>0 < k\<close>])
    show "handles w1 d = Some p" using Suc.prems by (simp add: w1_def)
    show "files w1 p = Some (replicate (length c) b)" by (simp add: w1_def)
    show "sz = int (length (replicate (length c) b))" using Suc.prems by simp
  qed
  have F: "(files w1)(p \<mapsto> (if m = 0 then replicate (length c) b
                                  else replicate (length (replicate (length c) b)) b))
         = (files w)(p \<mapsto> replicate (length c) b)"
    by (simp add: w1_def)
  have C: "calls w1 @ concat (replicate m (fill_writes k d sz b))
         = calls w @ concat (replicate (Suc m) (fill_writes k d sz b))"
    by (simp add: w1_def)
  show ?case
    using one rest unfolding F C by (simp add: await_def w1_def del: fun_upd_apply)
qed

lemma replicate_numeral_unfold:
  "replicate (numeral k) x = x # replicate (pred_numeral k) x"
  by (simp add: numeral_eq_Suc)







lemma init_opens:
  assumes "files w name = Some c"
  shows "init name w =
     Some (Inr \<lparr>fd = next_fd w, fileName = name, fileSize = int (length c)\<rparr>,
       w\<lparr>handles := (handles w)(next_fd w \<mapsto> name), next_fd := Suc (next_fd w),
         calls := calls w @ [Stat name, Open_rw name]\<rparr>)"
  using assms
  by (simp add: init_def await_def fs_stat_size_def fs_open_def logged_def resolve_def)





section \<open>Rounding to a double\<close>

lemma two_powi_pos: "0 < (2::rat) powi n"
  by simp

lemma two_powi_add: "(2::rat) powi (m + n) = 2 powi m * 2 powi n"
  by (simp add: power_int_add)

lemma two_powi_le: "m \<le> n \<Longrightarrow> (2::rat) powi m \<le> 2 powi n"
  by (simp add: power_int_increasing)

lemma two_powi_less_cancel: "(2::rat) powi m < 2 powi n \<Longrightarrow> m < n"
  by (metis not_le two_powi_le)

lemma two_powi_nat: "0 \<le> n \<Longrightarrow> (2::rat) powi n = 2 ^ nat n"
  by (simp add: power_int_def)

lemma ilog2_bounds:
  assumes "0 < x"
  shows "2 powi ilog2 x \<le> x" and "x < 2 powi (ilog2 x + 1)"
proof -
  have "2 powi ilog2 x \<le> x \<and> x < 2 powi (ilog2 x + 1)"
  proof (cases "1 \<le> x")
    case True
    define n where "n = \<lfloor>x\<rfloor>"
    have n: "0 < n" using True by (simp add: n_def)
    define b where "b = bitlen n"
    from bitlen_bounds [OF n] have lo: "2 ^ nat (b - 1) \<le> n" and hi: "n < 2 ^ nat b"
      by (simp_all add: b_def)
    have b1: "1 \<le> b"
    proof (rule ccontr)
      assume "\<not> 1 \<le> b"
      then have "nat b = 0" by simp
      with hi n show False by simp
    qed
    have i: "ilog2 x = b - 1" using True by (simp add: ilog2_def n_def b_def)
    have "2 powi (b - 1) = rat_of_int (2 ^ nat (b - 1))" using b1 by (simp add: two_powi_nat)
    also have "\<dots> \<le> rat_of_int n" using lo by (simp only: of_int_le_iff)
    also have "\<dots> \<le> x" by (simp add: n_def)
    finally have l: "2 powi (b - 1) \<le> x" .
    have nb: "n + 1 \<le> 2 ^ nat b" using hi by simp
    have "x < rat_of_int (n + 1)" using floor_correct [of x] by (simp add: n_def)
    also have "\<dots> \<le> rat_of_int (2 ^ nat b)" using nb by (simp only: of_int_le_iff)
    also have "\<dots> = 2 powi b" using b1 by (simp add: two_powi_nat)
    finally have "x < 2 powi b" .
    with l i show ?thesis by simp
  next
    case False
    define y where "y = 1 / x"
    have y: "1 < y" using False assms by (simp add: y_def)
    define N where "N = \<lceil>y\<rceil>"
    have N: "0 < N - 1" using y by (simp add: N_def less_ceiling_iff)
    define c where "c = bitlen (N - 1)"
    from bitlen_bounds [OF N] have lo: "2 ^ nat (c - 1) \<le> N - 1" and hi: "N - 1 < 2 ^ nat c"
      by (simp_all add: c_def)
    have c1: "1 \<le> c"
    proof (rule ccontr)
      assume "\<not> 1 \<le> c"
      then have "nat c = 0" by simp
      with hi N show False by simp
    qed
    have i: "ilog2 x = - c" using False by (simp add: ilog2_def y_def N_def c_def)
    have Nc: "N \<le> 2 ^ nat c" using hi by simp
    have "y \<le> rat_of_int N" by (simp add: N_def)
    also have "\<dots> \<le> rat_of_int (2 ^ nat c)" using Nc by (simp only: of_int_le_iff)
    also have "\<dots> = 2 powi c" using c1 by (simp add: two_powi_nat)
    finally have yc: "y \<le> 2 powi c" .
    have "2 powi (c - 1) = rat_of_int (2 ^ nat (c - 1))" using c1 by (simp add: two_powi_nat)
    also have "\<dots> \<le> rat_of_int (N - 1)" using lo by (simp only: of_int_le_iff)
    also have "\<dots> < y" using ceiling_correct [of y] by (simp add: N_def)
    finally have cy: "2 powi (c - 1) < y" .
    have x: "x = 1 / y" using assms by (simp add: y_def)
    have "1 / 2 powi c \<le> 1 / y"
      using yc y by (intro divide_left_mono) simp_all
    then have l: "2 powi (- c) \<le> x" by (simp add: x power_int_minus field_simps)
    have "1 / y < 1 / 2 powi (c - 1)"
      using cy y by (intro divide_strict_left_mono) (simp_all add: zero_less_mult_iff)
    moreover have "1 / (2::rat) powi (c - 1) = 2 powi (- c + 1)"
      using power_int_minus [of "2::rat" "c - 1"] by (simp add: field_simps)
    ultimately have "x < 2 powi (- c + 1)" by (simp add: x)
    with l i show ?thesis by simp
  qed
  then show "2 powi ilog2 x \<le> x" and "x < 2 powi (ilog2 x + 1)" by simp_all
qed

lemma round_even_floor: "\<lfloor>q\<rfloor> \<le> round_even q"
  by (simp add: round_even_def Let_def)

lemma round_even_ceiling: "round_even q \<le> \<lceil>q\<rceil>"
proof -
  have "q = rat_of_int \<lfloor>q\<rfloor> \<or> \<lfloor>q\<rfloor> + 1 \<le> \<lceil>q\<rceil>"
    by (metis ceiling_altdef le_less order_refl)
  moreover have "q = rat_of_int \<lfloor>q\<rfloor> \<Longrightarrow> round_even q = \<lfloor>q\<rfloor>"
    by (simp add: round_even_def Let_def)
  moreover have "round_even q \<le> \<lfloor>q\<rfloor> + 1"
    by (simp add: round_even_def Let_def)
  moreover have "\<lfloor>q\<rfloor> \<le> \<lceil>q\<rceil>" by simp
  ultimately show ?thesis by force
qed

lemma round_even_of_int [simp]: "round_even (rat_of_int n) = n"
  by (simp add: round_even_def Let_def)

lemma round_even_mono:
  assumes "p \<le> q"
  shows "round_even p \<le> round_even q"
proof (cases "\<lfloor>p\<rfloor> = \<lfloor>q\<rfloor>")
  case True
  with assms show ?thesis by (auto simp: round_even_def Let_def)
next
  case False
  with assms have "\<lfloor>p\<rfloor> + 1 \<le> \<lfloor>q\<rfloor>" using floor_mono [OF assms] by simp
  moreover have "round_even p \<le> \<lfloor>p\<rfloor> + 1" by (simp add: round_even_def Let_def)
  ultimately show ?thesis using round_even_floor [of q] by simp
qed


lemma ulp_binade: "ulp x = 2 powi (binade x - 52)"
  by (simp add: ulp_def)

lemma binade_upper: "0 < x \<Longrightarrow> x < 2 powi (binade x + 1)"
proof -
  assume x: "0 < x"
  have "x < 2 powi (ilog2 x + 1)" using ilog2_bounds(2) [OF x] .
  also have "\<dots> \<le> 2 powi (binade x + 1)" by (rule two_powi_le) (simp add: binade_def)
  finally show ?thesis .
qed

lemma binade_lower: "0 < x \<Longrightarrow> - 1022 < binade x \<Longrightarrow> 2 powi binade x \<le> x"
  using ilog2_bounds(1) [of x] by (simp add: binade_def max_def split: if_splits)

lemma binade_mono:
  assumes "0 < x" and "x \<le> y"
  shows "binade x \<le> binade y"
proof (rule ccontr)
  assume "\<not> binade x \<le> binade y"
  then have gt: "binade y < binade x" by simp
  have "- 1022 \<le> binade y" by (simp add: binade_def)
  with gt have "- 1022 < binade x" by simp
  from binade_lower [OF assms(1) this] have "2 powi binade x \<le> x" .
  also have "\<dots> \<le> y" using assms(2) .
  also have "\<dots> < 2 powi (binade y + 1)" using binade_upper [of y] assms by simp
  finally have "binade x < binade y + 1" by (rule two_powi_less_cancel)
  with gt show False by simp
qed

lemma double_pos: "0 \<le> x \<Longrightarrow> double x = rat_of_int (round_even (x / ulp x)) * ulp x"
  by (simp add: double_def)

lemma ulp_pos: "0 < ulp x"
  by (simp add: ulp_def)

lemma round_even_zero [simp]: "round_even 0 = 0"
  using round_even_of_int [of 0] by simp

lemma powi_split: "(2::rat) powi (e + int n) = 2 ^ n * 2 powi e"
proof -
  have "(2::rat) powi (e + int n) = 2 powi e * 2 powi int n" by (rule two_powi_add)
  also have "(2::rat) powi int n = 2 ^ n" by (rule power_int_of_nat)
  finally show ?thesis by (simp only: mult.commute)
qed

lemma double_upper:
  assumes "0 < x"
  shows "double x \<le> 2 powi (binade x + 1)"
proof -
  define K :: int where "K = 2 ^ 53"
  define q where "q = x / ulp x"
  have u: "0 < ulp x" by (rule ulp_pos)
  have "binade x + 1 = (binade x - 52) + int 53" by simp
  then have "(2::rat) powi (binade x + 1) = 2 ^ 53 * 2 powi (binade x - 52)"
    by (simp only: powi_split)
  then have s: "2 powi (binade x + 1) = rat_of_int K * ulp x"
    by (simp add: ulp_binade K_def)
  have "x < rat_of_int K * ulp x" using binade_upper [OF assms] by (simp only: s)
  then have "q < rat_of_int K" unfolding q_def using u by (simp only: pos_divide_less_eq)
  then have "q \<le> rat_of_int K" by (rule less_imp_le)
  then have "\<lceil>q\<rceil> \<le> K" by (simp only: ceiling_le_iff)
  then have "round_even q \<le> K" using round_even_ceiling [of q] by (rule order_trans [rotated])
  then have "rat_of_int (round_even q) \<le> rat_of_int K" by (simp only: of_int_le_iff)
  then have "rat_of_int (round_even q) * ulp x \<le> rat_of_int K * ulp x"
    using u by (intro mult_right_mono) simp_all
  then show ?thesis using assms unfolding q_def by (simp only: double_pos [OF less_imp_le] s)
qed

lemma double_lower:
  assumes "0 < x" and "- 1022 < binade x"
  shows "2 powi binade x \<le> double x"
proof -
  define K :: int where "K = 2 ^ 52"
  define q where "q = x / ulp x"
  have u: "0 < ulp x" by (rule ulp_pos)
  have "binade x = (binade x - 52) + int 52" by simp
  then have "(2::rat) powi binade x = 2 ^ 52 * 2 powi (binade x - 52)"
    by (metis powi_split)
  then have s: "2 powi binade x = rat_of_int K * ulp x"
    by (simp add: ulp_binade K_def)
  have "rat_of_int K * ulp x \<le> x" using binade_lower [OF assms] by (simp only: s)
  then have "rat_of_int K \<le> q" unfolding q_def using u by (simp only: pos_le_divide_eq)
  then have "K \<le> \<lfloor>q\<rfloor>" by (simp only: le_floor_iff)
  then have "K \<le> round_even q" using round_even_floor [of q] by (rule order_trans)
  then have "rat_of_int K \<le> rat_of_int (round_even q)" by (simp only: of_int_le_iff)
  then have "rat_of_int K * ulp x \<le> rat_of_int (round_even q) * ulp x"
    using u by (intro mult_right_mono) simp_all
  then show ?thesis using assms unfolding q_def by (simp only: double_pos [OF less_imp_le] s)
qed

lemma double_zero [simp]: "double 0 = 0"
  by (simp add: double_def)

lemma double_nonneg: "0 \<le> x \<Longrightarrow> 0 \<le> double x"
proof -
  assume x: "0 \<le> x"
  have "0 \<le> x / ulp x" using x ulp_pos [of x] by simp
  then have "0 \<le> \<lfloor>x / ulp x\<rfloor>" by simp
  then have "0 \<le> round_even (x / ulp x)" using round_even_floor [of "x / ulp x"] by (rule order_trans)
  then have "0 \<le> rat_of_int (round_even (x / ulp x)) * ulp x"
    using ulp_pos [of x] by (intro mult_nonneg_nonneg) simp_all
  then show ?thesis by (simp only: double_pos [OF x])
qed

lemma double_mono:
  assumes "0 \<le> x" and "x \<le> y"
  shows "double x \<le> double y"
proof (cases "x = 0")
  case True
  with assms double_nonneg [of y] show ?thesis by simp
next
  case False
  with assms have x: "0 < x" and y: "0 < y" by simp_all
  have b: "binade x \<le> binade y" using binade_mono [OF x assms(2)] .
  show ?thesis
  proof (cases "binade x = binade y")
    case True
    then have u: "ulp x = ulp y" by (simp add: ulp_binade)
    have "x / ulp y \<le> y / ulp y" using assms(2) ulp_pos [of y] by (simp add: divide_right_mono)
    then have "round_even (x / ulp y) \<le> round_even (y / ulp y)" by (rule round_even_mono)
    then have "rat_of_int (round_even (x / ulp y)) \<le> rat_of_int (round_even (y / ulp y))"
      by (simp only: of_int_le_iff)
    then have "rat_of_int (round_even (x / ulp y)) * ulp y \<le> rat_of_int (round_even (y / ulp y)) * ulp y"
      using ulp_pos [of y] by (intro mult_right_mono) simp_all
    then show ?thesis
      using x y by (simp only: double_pos [OF less_imp_le] u)
  next
    case False
    with b have lt: "binade x + 1 \<le> binade y" by simp
    have "- 1022 \<le> binade x" by (simp add: binade_def)
    with lt have n: "- 1022 < binade y" by simp
    have "double x \<le> 2 powi (binade x + 1)" using double_upper [OF x] .
    also have "\<dots> \<le> 2 powi binade y" using lt by (rule two_powi_le)
    also have "\<dots> \<le> double y" using double_lower [OF y n] .
    finally show ?thesis .
  qed
qed

text \<open>
  The quarters of the integers below \<open>2^53\<close> are doubles: the sizes, their quarters and their
  three quarters are computed without error.
\<close>

lemma double_quarters:
  assumes "0 \<le> m" and "m < 2 ^ 53"
  shows "double (rat_of_int m / 4) = rat_of_int m / 4"
proof (cases "m = 0")
  case True
  then show ?thesis by simp
next
  case False
  define x where "x = rat_of_int m / 4"
  have m1: "1 \<le> m" using assms(1) False by simp
  have x: "0 < x" using m1 by (simp add: x_def)
  have q4: "(2::rat) powi (- 2) = 1 / 4" by (simp add: power_int_def power2_eq_square)
  have xl: "2 powi (- 2) \<le> x"
  proof -
    have "rat_of_int 1 \<le> rat_of_int m" using m1 by (simp only: of_int_le_iff)
    then show ?thesis by (simp add: x_def q4)
  qed
  have xu: "x < 2 powi 51"
  proof -
    have "rat_of_int m < rat_of_int (2 ^ 53)" using assms(2) by (simp only: of_int_less_iff)
    then show ?thesis by (simp add: x_def two_powi_nat)
  qed
  have "2 powi (- 2) \<le> x" using xl .
  also have "\<dots> < 2 powi (ilog2 x + 1)" using ilog2_bounds(2) [OF x] .
  finally have "- 2 < ilog2 x + 1" by (rule two_powi_less_cancel)
  then have lo: "- 2 \<le> ilog2 x" by simp
  have "2 powi ilog2 x \<le> x" using ilog2_bounds(1) [OF x] .
  also have "\<dots> < 2 powi 51" using xu .
  finally have "ilog2 x < 51" by (rule two_powi_less_cancel)
  then have hi: "ilog2 x \<le> 50" by simp
  define e where "e = ilog2 x"
  have b: "binade x = e" using lo by (simp add: binade_def e_def)
  define n where "n = nat (50 - e)"
  define k where "k = m * 2 ^ n"
  have en: "(e - 52) + int n = - 2" using hi by (simp add: n_def e_def)
  have "(2::rat) powi ((e - 52) + int n) = 2 ^ n * 2 powi (e - 52)" by (rule powi_split)
  then have "1 / 4 = 2 ^ n * ulp x" by (simp only: en q4 ulp_binade b)
  then have "x = rat_of_int m * (2 ^ n * ulp x)" by (simp add: x_def)
  then have xk: "x = rat_of_int k * ulp x" by (simp add: k_def mult.assoc)
  then have "x / ulp x = rat_of_int k" using ulp_pos [of x] by (simp add: field_simps)
  then have "double x = rat_of_int k * ulp x" using x by (simp add: double_pos)
  with xk show ?thesis by (simp add: x_def)
qed

section \<open>Truncation\<close>

lemma double_quarter: "double (1 / 4) = 1 / 4"
  using double_quarters [of 1] by simp

lemma double_half: "double (1 / 2) = 1 / 2"
  using double_quarters [of 2] by simp

lemma double_three_quarters: "double (3 / 4) = 3 / 4"
  using double_quarters [of 3] by simp

lemma factor_bounds:
  assumes "0 \<le> r" and "r < 1"
  shows "1 / 4 \<le> double (1 / 4 + double (r * (1 / 2)))"
    and "double (1 / 4 + double (r * (1 / 2))) \<le> 3 / 4"
proof -
  define a where "a = double (r * (1 / 2))"
  have "0 \<le> r * (1 / 2)" using assms(1) by simp
  then have a0: "0 \<le> a" unfolding a_def by (rule double_nonneg)
  have "r * (1 / 2) \<le> 1 / 2" using assms(2) by simp
  with \<open>0 \<le> r * (1 / 2)\<close> have "a \<le> double (1 / 2)" unfolding a_def by (rule double_mono)
  then have a1: "a \<le> 1 / 2" by (simp only: double_half)
  have "double (1 / 4) \<le> double (1 / 4 + a)" using a0 by (intro double_mono) simp_all
  then show "1 / 4 \<le> double (1 / 4 + double (r * (1 / 2)))"
    by (simp only: double_quarter a_def)
  have "double (1 / 4 + a) \<le> double (3 / 4)" using a0 a1 by (intro double_mono) simp_all
  then show "double (1 / 4 + double (r * (1 / 2))) \<le> 3 / 4"
    by (simp only: double_three_quarters a_def)
qed

lemma newSize_bounds:
  assumes "0 \<le> r" and "r < 1" and "0 \<le> s" and "s < 2 ^ 51"
  shows "s div 4 \<le> newSize r s" and "4 * newSize r s \<le> 3 * s"
proof -
  define b where "b = double (1 / 4 + double (r * (1 / 2)))"
  define c where "c = double (b * rat_of_int s)"
  have b: "1 / 4 \<le> b" "b \<le> 3 / 4" unfolding b_def by (rule factor_bounds [OF assms(1,2)])+
  have s: "0 \<le> rat_of_int s" using assms(3) by simp
  have n: "newSize r s = \<lfloor>c\<rfloor>" by (simp only: newSize_def b_def c_def)
  have lo: "rat_of_int s / 4 \<le> b * rat_of_int s"
    using mult_right_mono [OF b(1) s] by simp
  have hi: "b * rat_of_int s \<le> rat_of_int (3 * s) / 4"
    using mult_right_mono [OF b(2) s] by simp
  have "double (rat_of_int s / 4) \<le> c" unfolding c_def
    using lo s by (intro double_mono) simp_all
  moreover have "double (rat_of_int s / 4) = rat_of_int s / 4"
    using assms(3,4) by (intro double_quarters) simp_all
  ultimately have "rat_of_int s / 4 \<le> c" by simp
  then have "\<lfloor>rat_of_int s / 4\<rfloor> \<le> \<lfloor>c\<rfloor>" by (rule floor_mono)
  moreover have "\<lfloor>rat_of_int s / 4\<rfloor> = s div 4"
    using floor_divide_of_int_eq [of s 4, where ?'a = rat] by simp
  ultimately show "s div 4 \<le> newSize r s" by (simp only: n)
  have b0: "0 \<le> b * rat_of_int s" using b(1) s by simp
  have "c \<le> double (rat_of_int (3 * s) / 4)" unfolding c_def
    using b0 hi by (rule double_mono)
  moreover have "double (rat_of_int (3 * s) / 4) = rat_of_int (3 * s) / 4"
    using assms(3,4) by (intro double_quarters) simp_all
  ultimately have "c \<le> rat_of_int (3 * s) / 4" by simp
  moreover have "rat_of_int \<lfloor>c\<rfloor> \<le> c" by (rule of_int_floor_le)
  ultimately have "rat_of_int \<lfloor>c\<rfloor> \<le> rat_of_int (3 * s) / 4" by (rule order_trans [rotated])
  then have "rat_of_int (4 * \<lfloor>c\<rfloor>) \<le> rat_of_int (3 * s)" by simp
  then have "4 * \<lfloor>c\<rfloor> \<le> 3 * s" by (simp only: of_int_le_iff)
  then show "4 * newSize r s \<le> 3 * s" by (simp only: n)
qed

lemma newSize_half_of_1: "newSize (1 / 2) 1 = 0"
  by code_simp

lemma newSize_half_of_0: "newSize (1 / 2) 0 = 0"
  by code_simp

lemma newSize_largest_of_1000: "newSize (9007199254740991 / 9007199254740992) 1000 = 750"
  by code_simp

lemma newSize_largest_of_750: "newSize (9007199254740991 / 9007199254740992) 750 = 562"
  by code_simp

lemma newSize_largest_of_562: "newSize (9007199254740991 / 9007199254740992) 562 = 421"
  by code_simp

lemma shrinks_last:
  "0 \<le> s \<Longrightarrow> shrinks s ns \<Longrightarrow> 0 \<le> last (s # ns) \<and> last (s # ns) \<le> s"
proof (induction ns arbitrary: s)
  case Nil
  then show ?case by simp
next
  case (Cons a ns)
  from Cons.prems have a: "0 \<le> a" "a \<le> s" "shrinks a ns" by auto
  from Cons.IH [OF a(1) a(3)] a(2) show ?case by simp
qed

lemma shrinks_never_grows:
  "0 \<le> s \<Longrightarrow> shrinks s ns \<Longrightarrow> n \<in> set ns \<Longrightarrow> 0 \<le> n \<and> n \<le> s"
proof (induction ns arbitrary: s)
  case Nil
  then show ?case by simp
next
  case (Cons a ns)
  from Cons.prems(1,2) have a: "0 \<le> a" "a \<le> s" "shrinks a ns" by auto
  show ?case
  proof (cases "n = a")
    case True
    with a show ?thesis by simp
  next
    case False
    with Cons.prems(3) have "n \<in> set ns" by simp
    from Cons.IH [OF a(1) a(3) this] a(2) show ?thesis by simp
  qed
qed

lemma truncate_loop_shrinks:
  assumes "0 \<le> sz" and "sz < 2 ^ 51"
    and "handles w d = Some p" and "files w p = Some c" and "int (length c) = sz"
    and "\<forall>i. 0 \<le> uniform w i \<and> uniform w i < 1"
  shows "\<exists>w' sizes. truncate_loop m d sz w = Some (Inr (), w')
      \<and> calls w' = calls w @ truncate_calls d sizes
      \<and> length sizes = m
      \<and> sizes = truncate_sizes sz (map (uniform w) [rolled w..<rolled w + m])
      \<and> shrinks sz sizes
      \<and> files w' = (files w)(p \<mapsto> take (nat (last (sz # sizes))) c)"
  using assms
proof (induction m arbitrary: w sz c)
  case 0
  have "files w = (files w)(p \<mapsto> take (nat sz) c)"
    using "0.prems"(4,5) by (auto simp: map_upd_triv)
  then have "truncate_loop 0 d sz w = Some (Inr (), w)
      \<and> calls w = calls w @ truncate_calls d []
      \<and> length ([] :: int list) = 0
      \<and> [] = truncate_sizes sz (map (uniform w) [rolled w..<rolled w + 0])
      \<and> shrinks sz []
      \<and> files w = (files w)(p \<mapsto> take (nat (last (sz # []))) c)"
    by (simp add: resolve_def truncate_calls_def)
  then show ?case by blast
next
  case (Suc m)
  define r where "r = uniform w (rolled w)"
  define n where "n = newSize r sz"
  define c1 where "c1 = take (nat n) c @ replicate (nat n - length c) 0"
  define w1 where "w1 = w\<lparr>rolled := Suc (rolled w),
      calls := calls w @ [MathRandom, Ftruncate d n], files := (files w)(p \<mapsto> c1)\<rparr>"
  have r: "0 \<le> r" "r < 1" using Suc.prems(6) by (simp_all add: r_def)
  have lo: "sz div 4 \<le> n"
    unfolding n_def by (rule newSize_bounds(1) [OF r Suc.prems(1,2)])
  have hi: "4 * n \<le> 3 * sz"
    unfolding n_def by (rule newSize_bounds(2) [OF r Suc.prems(1,2)])
  have n0: "0 \<le> n" using lo Suc.prems(1) by simp
  have ns: "n \<le> sz" using hi Suc.prems(1) by simp
  have n51: "n < 2 ^ 51" using ns Suc.prems(2) by simp
  have c1: "c1 = take (nat n) c" using ns Suc.prems(5) by (simp add: c1_def)
  have lc1: "int (length c1) = n" using n0 ns Suc.prems(5) by (simp add: c1)
  have step: "truncate_loop (Suc m) d sz w = truncate_loop m d n w1"
    using Suc.prems(3,4)
    by (simp add: await_def Math_random_def fs_ftruncate_def logged_def Let_def
        r_def [symmetric] n_def [symmetric] c1_def w1_def)
  have "\<exists>w' sizes. truncate_loop m d n w1 = Some (Inr (), w')
      \<and> calls w' = calls w1 @ truncate_calls d sizes
      \<and> length sizes = m
      \<and> sizes = truncate_sizes n (map (uniform w1) [rolled w1..<rolled w1 + m])
      \<and> shrinks n sizes
      \<and> files w' = (files w1)(p \<mapsto> take (nat (last (n # sizes))) c1)"
  proof (rule Suc.IH [OF n0 n51 _ _ lc1])
    show "handles w1 d = Some p" using Suc.prems(3) by (simp add: w1_def)
    show "files w1 p = Some c1" by (simp add: w1_def)
    show "\<forall>i. 0 \<le> uniform w1 i \<and> uniform w1 i < 1" using Suc.prems(6) by (simp add: w1_def)
  qed
  then obtain w' sizes where
      run: "truncate_loop m d n w1 = Some (Inr (), w')"
    and cs: "calls w' = calls w1 @ truncate_calls d sizes"
    and len: "length sizes = m"
    and sq: "sizes = truncate_sizes n (map (uniform w1) [rolled w1..<rolled w1 + m])"
    and sh: "shrinks n sizes"
    and fs: "files w' = (files w1)(p \<mapsto> take (nat (last (n # sizes))) c1)"
    by blast
  have l: "0 \<le> last (n # sizes)" "last (n # sizes) \<le> n"
    using shrinks_last [OF n0 sh] by simp_all
  have "truncate_loop (Suc m) d sz w = Some (Inr (), w')" using step run by simp
  moreover have "calls w' = calls w @ truncate_calls d (n # sizes)"
    using cs by (simp add: w1_def truncate_calls_def)
  moreover have "length (n # sizes) = Suc m" using len by simp
  moreover have "n # sizes = truncate_sizes sz (map (uniform w) [rolled w..<rolled w + Suc m])"
  proof -
    have "[rolled w..<rolled w + Suc m] = rolled w # [Suc (rolled w)..<Suc (rolled w) + m]"
      by (simp add: upt_conv_Cons)
    then show ?thesis using sq by (simp add: w1_def n_def r_def)
  qed
  moreover have "shrinks sz (n # sizes)" using sh lo hi ns by simp
  moreover have "files w' = (files w)(p \<mapsto> take (nat (last (sz # n # sizes))) c)"
  proof -
    have "take (nat (last (n # sizes))) c1 = take (nat (last (n # sizes))) c"
      using l by (simp add: c1 min_def)
    then show ?thesis using fs by (simp add: w1_def)
  qed
  ultimately show ?case by blast
qed

text \<open>
  Claim C4, as the code has it. Let the file of an open session hold as many bytes as the
  session says, fewer than \<open>2^51\<close>, and let the draws of \<^verbatim>\<open>Math.random()\<close> lie in \<open>[0, 1)\<close>. Then
  \<^verbatim>\<open>truncate\<close> resolves after exactly \<open>passes\<close> iterations, each one draw and one
  \<^verbatim>\<open>ftruncate\<close> to \<^verbatim>\<open>Math.floor((0.25 + r * 0.5) * current)\<close> as the doubles give it. Each new
  size is at least a quarter of the current size, rounded down, and at most three quarters
  of it: between 250 and 750 for 1000 bytes, both reached. So no size exceeds the one before,
  a positive size decreases strictly, and the size 0 stays 0. The file ends as the first
  bytes of what it held, as many as the last size says.
\<close>

theorem truncate_shrinks_each_pass:
  assumes "0 \<le> fileSize fileData" and "fileSize fileData < 2 ^ 51"
    and "handles w (fd fileData) = Some p" and "files w p = Some c"
    and "int (length c) = fileSize fileData"
    and "\<forall>i. 0 \<le> uniform w i \<and> uniform w i < 1"
  shows "\<exists>w' sizes. truncate fileData opts w = Some (Inr (), w')
      \<and> calls w' = calls w @ truncate_calls (fd fileData) sizes
      \<and> length sizes = nat (passes_of opts)
      \<and> sizes = truncate_sizes (fileSize fileData)
                  (map (uniform w) [rolled w..<rolled w + nat (passes_of opts)])
      \<and> shrinks (fileSize fileData) sizes
      \<and> (\<forall>n \<in> set sizes. 0 \<le> n \<and> n \<le> fileSize fileData)
      \<and> files w' = (files w)(p \<mapsto> take (nat (last (fileSize fileData # sizes))) c)"
proof -
  from truncate_loop_shrinks [OF assms, of "nat (passes_of opts)"]
  obtain w' sizes where
      run: "truncate_loop (nat (passes_of opts)) (fd fileData) (fileSize fileData) w = Some (Inr (), w')"
    and cs: "calls w' = calls w @ truncate_calls (fd fileData) sizes"
    and len: "length sizes = nat (passes_of opts)"
    and sq: "sizes = truncate_sizes (fileSize fileData)
                  (map (uniform w) [rolled w..<rolled w + nat (passes_of opts)])"
    and sh: "shrinks (fileSize fileData) sizes"
    and fs: "files w' = (files w)(p \<mapsto> take (nat (last (fileSize fileData # sizes))) c)"
    by blast
  have "\<forall>n \<in> set sizes. 0 \<le> n \<and> n \<le> fileSize fileData"
    using shrinks_never_grows [OF assms(1) sh] by blast
  with run cs len sq sh fs show ?thesis unfolding truncate_def by blast
qed

text \<open>
  The claim as stated fails on a file of one byte: the draw 0.5 gives the size 0, which is
  not strictly between 25% and 75% of 1, and the second pass sets 0 again. It fails on 1000
  bytes too: with the largest draw below 1, which is \<open>1 - 2^(-53)\<close>, the sum
  \<open>0.25 + r * 0.5\<close> rounds to 0.75 and the new size is 750, three quarters and not less.
\<close>

theorem truncate_counterexample:
  "calls_after (truncate \<lparr>fd = 3, fileName = ''/tmp/f'', fileSize = 1\<rparr>
       \<lparr>passes = Some 2, check = None\<rparr> ((open_world [0x41])\<lparr>uniform := (\<lambda>i. 1 / 2)\<rparr>))
     = [MathRandom, Ftruncate 3 0, MathRandom, Ftruncate 3 0]
   \<and> \<not> strictly_between_quarters 1 0
   \<and> calls_after (truncate \<lparr>fd = 3, fileName = ''/tmp/f'', fileSize = 1000\<rparr>
       \<lparr>passes = Some 1, check = None\<rparr>
       ((open_world (replicate 1000 0x41))
          \<lparr>uniform := (\<lambda>i. 9007199254740991 / 9007199254740992)\<rparr>))
     = [MathRandom, Ftruncate 3 750]
   \<and> \<not> strictly_between_quarters 1000 750"
  by (simp add: truncate_def passes_of_def world_eval Math_random_def fs_ftruncate_def
      strictly_between_quarters_def eval_nat_numeral
      newSize_half_of_1 newSize_half_of_0 newSize_largest_of_1000)

theorem truncate_shrinks_each_pass_witness:
  "calls_after (truncate \<lparr>fd = 3, fileName = ''/tmp/f'', fileSize = 1000\<rparr>
       \<lparr>passes = Some 3, check = None\<rparr>
       ((open_world (replicate 1000 0x41))
          \<lparr>uniform := (\<lambda>i. 9007199254740991 / 9007199254740992)\<rparr>))
     = truncate_calls 3 [750, 562, 421]
   \<and> shrinks 1000 [750, 562, 421]
   \<and> content_after (truncate \<lparr>fd = 3, fileName = ''/tmp/f'', fileSize = 1000\<rparr>
       \<lparr>passes = Some 3, check = None\<rparr>
       ((open_world (replicate 1000 0x41))
          \<lparr>uniform := (\<lambda>i. 9007199254740991 / 9007199254740992)\<rparr>)) ''/tmp/f''
     = Some (replicate 421 0x41)"
proof -
  let ?w = "(open_world (replicate 1000 0x41))
      \<lparr>uniform := (\<lambda>i. 9007199254740991 / 9007199254740992)\<rparr>"
  let ?f = "\<lparr>fd = 3, fileName = ''/tmp/f'', fileSize = 1000\<rparr>"
  have s: "0 \<le> fileSize ?f" "fileSize ?f < 2 ^ 51" by simp_all
  have h: "handles ?w (fd ?f) = Some ''/tmp/f''" by (simp add: open_world_def)
  have f: "files ?w ''/tmp/f'' = Some (replicate 1000 0x41)" by (simp add: open_world_def)
  have l: "int (length (replicate 1000 (0x41 :: byte))) = fileSize ?f" by simp
  have u: "\<forall>i. 0 \<le> uniform ?w i \<and> uniform ?w i < 1" by simp
  from truncate_shrinks_each_pass [OF s h f l u, of "\<lparr>passes = Some 3, check = None\<rparr>"]
  show ?thesis
    by (simp add: truncate_def passes_of_def world_eval Math_random_def fs_ftruncate_def
        truncate_calls_def eval_nat_numeral
        newSize_largest_of_1000 newSize_largest_of_750 newSize_largest_of_562)
qed

section \<open>Renaming\<close>

lemma base64_digit_in: "base64_digit i \<in> set base64_alphabet"
proof -
  have "i mod 64 < length base64_alphabet" by (simp add: base64_alphabet_def)
  then show ?thesis unfolding base64_digit_def by (rule nth_mem)
qed

lemma toString_base64_whole:
  "length bs mod 3 = 0 \<Longrightarrow>
     length (toString_base64 bs) = 4 * (length bs div 3)
     \<and> set (toString_base64 bs) \<subseteq> set base64_alphabet"
proof (induction bs rule: toString_base64.induct)
  case 1
  then show ?case by simp
next
  case (2 a)
  then show ?case by simp
next
  case (3 a b)
  then show ?case by simp
next
  case (4 a b c rest)
  from "4.prems" have "length rest mod 3 = 0" by (simp add: mod_Suc split: if_splits)
  from "4.IH" [OF this] show ?case by (simp add: base64_digit_in)
qed

lemma replaced_safe:
  assumes "c \<in> set base64_alphabet"
  shows "(if (if c = CHR ''/'' then CHR ''0'' else c) = CHR ''+'' then CHR ''a''
          else (if c = CHR ''/'' then CHR ''0'' else c)) \<in> set safe_alphabet"
  using assms unfolding base64_alphabet_def safe_alphabet_def by auto

lemma set_replace_all:
  "set (replace_all x y s) = (\<lambda>c. if c = x then y else c) ` set s"
  by (simp only: replace_all_def set_map)

lemma random_name_safe:
  assumes "length bytes = 9"
  shows "length (random_name bytes) = 12" and "set (random_name bytes) \<subseteq> set safe_alphabet"
proof -
  have m: "length bytes mod 3 = 0" using assms by simp
  from toString_base64_whole [OF m] assms
  have l: "length (toString_base64 bytes) = 12"
    and s: "set (toString_base64 bytes) \<subseteq> set base64_alphabet" by simp_all
  show "length (random_name bytes) = 12" using l by (simp add: random_name_def replace_all_def)
  show "set (random_name bytes) \<subseteq> set safe_alphabet"
  proof
    fix x assume "x \<in> set (random_name bytes)"
    then obtain c where c: "c \<in> set (toString_base64 bytes)"
      and x: "x = (if (if c = CHR ''/'' then CHR ''0'' else c) = CHR ''+'' then CHR ''a''
                   else (if c = CHR ''/'' then CHR ''0'' else c))"
      unfolding random_name_def set_replace_all by blast
    from c s have "c \<in> set base64_alphabet" by blast
    then show "x \<in> set safe_alphabet" unfolding x by (rule replaced_safe)
  qed
qed

text \<open>
  Claim C9. For every session whose descriptor is open and whose file exists, \<^verbatim>\<open>rename\<close>
  closes the descriptor, draws 9 random bytes, builds from them a name of exactly 12
  characters, all of them letters or digits, renames the file to
  \<^verbatim>\<open>path.join(path.dirname(fileName), newName)\<close>, and opens it again there: it resolves with a
  session for the new path (the new descriptor, the size of the content), the content is
  found under the new path and no longer under the old one.
\<close>

theorem rename_moves_to_random_name:
  assumes "handles w (fd fileData) = Some q" and "files w (fileName fileData) = Some c"
  shows "\<exists>newName w'.
      rename path_dirname path_join fileData w =
        Some (Inr \<lparr>fd = next_fd w,
                   fileName = path_join (path_dirname (fileName fileData)) newName,
                   fileSize = int (length c)\<rparr>, w')
    \<and> length newName = 12
    \<and> set newName \<subseteq> set safe_alphabet
    \<and> calls w' = calls w @
          [Close (fd fileData), RandomBytes 9,
           Rename (fileName fileData) (path_join (path_dirname (fileName fileData)) newName),
           Stat (path_join (path_dirname (fileName fileData)) newName),
           Open_rw (path_join (path_dirname (fileName fileData)) newName)]
    \<and> files w' = ((files w)(fileName fileData := None))
          (path_join (path_dirname (fileName fileData)) newName \<mapsto> c)
    \<and> handles w' = ((handles w)(fd fileData := None))
          (next_fd w \<mapsto> path_join (path_dirname (fileName fileData)) newName)"
proof -
  define bytes where "bytes = map (entropy w) [drawn w..<drawn w + nat 9]"
  define newName where "newName = random_name bytes"
  define newPath where "newPath = path_join (path_dirname (fileName fileData)) newName"
  define w1 where "w1 = w\<lparr>handles := (handles w)(fd fileData := None),
      drawn := drawn w + nat 9,
      calls := calls w @ [Close (fd fileData), RandomBytes 9, Rename (fileName fileData) newPath],
      files := ((files w)(fileName fileData := None))(newPath \<mapsto> c)\<rparr>"
  have lb: "length bytes = 9" by (simp add: bytes_def)
  have f1: "files w1 newPath = Some c" by (simp add: w1_def)
  have pre: "rename path_dirname path_join fileData w = init newPath w1"
    using assms
    by (simp add: rename_def await_def fs_close_def randomBytes_def fs_rename_def logged_def
        Let_def bytes_def newName_def newPath_def w1_def)
  define w2 where "w2 = w1\<lparr>handles := (handles w1)(next_fd w1 \<mapsto> newPath),
         next_fd := Suc (next_fd w1), calls := calls w1 @ [Stat newPath, Open_rw newPath]\<rparr>"
  have "rename path_dirname path_join fileData w =
      Some (Inr \<lparr>fd = next_fd w1, fileName = newPath, fileSize = int (length c)\<rparr>, w2)"
    unfolding pre w2_def using f1 by (rule init_opens)
  then have run: "rename path_dirname path_join fileData w =
      Some (Inr \<lparr>fd = next_fd w, fileName = newPath, fileSize = int (length c)\<rparr>, w2)"
    by (simp add: w1_def)
  have l: "length newName = 12" and s: "set newName \<subseteq> set safe_alphabet"
    unfolding newName_def using random_name_safe [OF lb] by simp_all
  have cs: "calls w2 = calls w @ [Close (fd fileData), RandomBytes 9,
      Rename (fileName fileData) newPath, Stat newPath, Open_rw newPath]"
    by (simp add: w2_def w1_def)
  have fs: "files w2 = ((files w)(fileName fileData := None))(newPath \<mapsto> c)"
    by (simp add: w2_def w1_def)
  have hs: "handles w2 = ((handles w)(fd fileData := None))(next_fd w \<mapsto> newPath)"
    by (simp add: w2_def w1_def)
  from run l s cs fs hs show ?thesis
    unfolding newPath_def by blast
qed

theorem rename_moves_to_random_name_witness:
  "settled (rename (\<lambda>p. ''/tmp'') (\<lambda>d n. d @ ''/'' @ n)
       \<lparr>fd = 3, fileName = ''/tmp/f'', fileSize = 2\<rparr> ((open_world [1, 2])\<lparr>drawn := 251\<rparr>))
     = Some (Inr \<lparr>fd = 4, fileName = ''/tmp/a0z90v8AAQID'', fileSize = 2\<rparr>)
   \<and> calls_after (rename (\<lambda>p. ''/tmp'') (\<lambda>d n. d @ ''/'' @ n)
       \<lparr>fd = 3, fileName = ''/tmp/f'', fileSize = 2\<rparr> ((open_world [1, 2])\<lparr>drawn := 251\<rparr>))
     = [Close 3, RandomBytes 9, Rename ''/tmp/f'' ''/tmp/a0z90v8AAQID'',
        Stat ''/tmp/a0z90v8AAQID'', Open_rw ''/tmp/a0z90v8AAQID'']
   \<and> content_after (rename (\<lambda>p. ''/tmp'') (\<lambda>d n. d @ ''/'' @ n)
       \<lparr>fd = 3, fileName = ''/tmp/f'', fileSize = 2\<rparr> ((open_world [1, 2])\<lparr>drawn := 251\<rparr>))
       ''/tmp/a0z90v8AAQID'' = Some [1, 2]
   \<and> content_after (rename (\<lambda>p. ''/tmp'') (\<lambda>d n. d @ ''/'' @ n)
       \<lparr>fd = 3, fileName = ''/tmp/f'', fileSize = 2\<rparr> ((open_world [1, 2])\<lparr>drawn := 251\<rparr>))
       ''/tmp/f'' = None"
proof -
  let ?w = "(open_world [1, 2])\<lparr>drawn := 251\<rparr>"
  let ?f = "\<lparr>fd = 3, fileName = ''/tmp/f'', fileSize = 2\<rparr>"
  have h: "handles ?w (fd ?f) = Some ''/tmp/f''" by (simp add: open_world_def)
  have f: "files ?w (fileName ?f) = Some [1, 2]" by (simp add: open_world_def)
  have n: "random_name [251, 252, 253, 254, 255, 256, 257, 258, 259] = ''a0z90v8AAQID''"
    by (simp add: random_name_def replace_all_def base64_digit_def base64_alphabet_def)
  from rename_moves_to_random_name [OF h f, of "\<lambda>p. ''/tmp''" "\<lambda>d n. d @ ''/'' @ n"]
  show ?thesis
    by (simp add: rename_def world_eval fs_close_def randomBytes_def fs_rename_def
        init_def fs_stat_size_def fs_open_def n)
qed

section \<open>The mark protocol\<close>

lemma heard_fields [simp]:
  "emitted (heard eventEmitter e w) = emitted w"
  "folderSet (heard eventEmitter e w) = folderSet w"
  "folders (heard eventEmitter e w) = folders w"
  "files (heard eventEmitter e w) = files w"
  "calls (heard eventEmitter e w) = calls w"
  by (cases eventEmitter; simp)+

lemma heard_mark: "tally (heard eventEmitter (Mark p) w) = after_marks eventEmitter [p] (tally w)"
  by (cases eventEmitter; cases "tally w") (simp_all add: update_def)

lemma after_marks_Nil [simp]: "after_marks eventEmitter [] listener = listener"
  by (cases eventEmitter; cases listener) simp_all

lemma after_marks_append:
  "after_marks eventEmitter qs (after_marks eventEmitter ps listener)
     = after_marks eventEmitter (ps @ qs) listener"
  by (cases eventEmitter; cases listener) simp_all

lemma dir_mark_first_visit:
  assumes "folders w folderName = Some names" and "names \<noteq> []"
    and "folderName \<notin> folderSet w"
  shows "dir_mark folderName eventEmitter w =
     Some (Inl ENOTEMPTY,
       w\<lparr>calls := calls w @ [Readdir folderName, Rmdir folderName],
         folderSet := insert folderName (folderSet w)\<rparr>)"
  using assms
  by (simp add: dir_mark_def await_def fs_readdir_def fs_rmdir_def folderSet_add_def logged_def)

lemma dir_mark_later_visit:
  assumes "folders w folderName = Some names" and "names \<noteq> []"
    and "folderName \<in> folderSet w"
  shows "dir_mark folderName eventEmitter w =
     Some (Inr (),
       heard eventEmitter (Mark folderName)
         (w\<lparr>calls := calls w @ [Readdir folderName],
            folderSet := folderSet w - {folderName},
            emitted := emitted w @ [Mark folderName]\<rparr>))"
  using assms
  by (simp add: dir_mark_def await_def fs_readdir_def folderSet_delete_def emit_on_def logged_def)

text \<open>
  Claim C3. For a directory that has entries and is not in \<^verbatim>\<open>folderSet\<close>, the first visit of
  \<^verbatim>\<open>mark\<close> puts its path into \<^verbatim>\<open>folderSet\<close>, emits nothing and is rejected with the error of
  \<^verbatim>\<open>rmdir\<close> on a directory that is not empty; the directory is left as it was. A later visit,
  in any world where the path is in \<^verbatim>\<open>folderSet\<close> and the directory still has entries (the mark
  hooks remove none), resolves, emits exactly one \<^verbatim>\<open>mark\<close> event and takes the path out of
  \<^verbatim>\<open>folderSet\<close>. After the two visits \<^verbatim>\<open>folderSet\<close> is what it was before the first: empty when
  it was empty. This holds for every emitter handed to \<^verbatim>\<open>mark\<close>.
\<close>

theorem dir_mark_two_visits:
  assumes "folders w folderName = Some names" and "names \<noteq> []"
    and "folderName \<notin> folderSet w"
  shows "\<exists>w1.
      dir_mark folderName eventEmitter w = Some (Inl ENOTEMPTY, w1)
    \<and> folderSet w1 = insert folderName (folderSet w)
    \<and> emitted w1 = emitted w
    \<and> folders w1 = folders w
    \<and> (\<forall>w2 names2. folderName \<in> folderSet w2 \<and> folders w2 folderName = Some names2 \<and> names2 \<noteq> []
          \<longrightarrow> (\<exists>w3. dir_mark folderName eventEmitter w2 = Some (Inr (), w3)
                 \<and> emitted w3 = emitted w2 @ [Mark folderName]
                 \<and> folderSet w3 = folderSet w2 - {folderName}))
    \<and> (\<exists>w3. dir_mark folderName eventEmitter w1 = Some (Inr (), w3)
           \<and> emitted w3 = emitted w @ [Mark folderName]
           \<and> folderSet w3 = folderSet w)"
proof -
  define w1 where "w1 = w\<lparr>calls := calls w @ [Readdir folderName, Rmdir folderName],
         folderSet := insert folderName (folderSet w)\<rparr>"
  have first: "dir_mark folderName eventEmitter w = Some (Inl ENOTEMPTY, w1)"
    unfolding w1_def using assms by (rule dir_mark_first_visit)
  have later: "\<forall>w2 names2.
      folderName \<in> folderSet w2 \<and> folders w2 folderName = Some names2 \<and> names2 \<noteq> []
      \<longrightarrow> (\<exists>w3. dir_mark folderName eventEmitter w2 = Some (Inr (), w3)
             \<and> emitted w3 = emitted w2 @ [Mark folderName]
             \<and> folderSet w3 = folderSet w2 - {folderName})"
    by (auto simp: dir_mark_later_visit)
  have "dir_mark folderName eventEmitter w1 =
     Some (Inr (),
       heard eventEmitter (Mark folderName)
         (w1\<lparr>calls := calls w1 @ [Readdir folderName],
            folderSet := folderSet w1 - {folderName},
            emitted := emitted w1 @ [Mark folderName]\<rparr>))"
    by (rule dir_mark_later_visit [of _ _ names]) (use assms in \<open>simp_all add: w1_def\<close>)
  moreover have "folderSet w1 - {folderName} = folderSet w"
    using assms(3) by (auto simp: w1_def)
  ultimately have second: "\<exists>w3. dir_mark folderName eventEmitter w1 = Some (Inr (), w3)
           \<and> emitted w3 = emitted w @ [Mark folderName]
           \<and> folderSet w3 = folderSet w"
    by (simp add: w1_def)
  have "folderSet w1 = insert folderName (folderSet w)" "emitted w1 = emitted w"
    "folders w1 = folders w"
    by (simp_all add: w1_def)
  with first later second show ?thesis by blast
qed

theorem dir_mark_two_visits_witness:
  "settled (dir_mark ''/d'' Own_emitter tree_world) = Some (Inl ENOTEMPTY)
   \<and> emitted_after (dir_mark ''/d'' Own_emitter tree_world) = []
   \<and> folderSet_after (dir_mark ''/d'' Own_emitter tree_world) = {''/d''}
   \<and> settled (dir_mark ''/d'' Own_emitter (tree_world\<lparr>folderSet := {''/d''}\<rparr>)) = Some (Inr ())
   \<and> emitted_after (dir_mark ''/d'' Own_emitter (tree_world\<lparr>folderSet := {''/d''}\<rparr>))
       = [Mark ''/d'']
   \<and> folderSet_after (dir_mark ''/d'' Own_emitter (tree_world\<lparr>folderSet := {''/d''}\<rparr>)) = {}"
proof -
  have f: "folders tree_world ''/d'' = Some [''a'', ''b'']" by (simp add: tree_world_def)
  have n: "[''a'', ''b''] \<noteq> []" by simp
  have s: "''/d'' \<notin> folderSet tree_world" by (simp add: tree_world_def idle_world_def)
  from dir_mark_two_visits [OF f n s, where eventEmitter = Own_emitter]
  show ?thesis
    by (simp add: dir_mark_def world_eval tree_world_def fs_readdir_def fs_rmdir_def
        folderSet_add_def folderSet_delete_def emit_on_def emitted_after_def folderSet_after_def)
qed

section \<open>The count and the index of a removal\<close>

text \<open>
  The listener keeps the count equal to the length of the index: every event emitted, on
  either emitter, leaves them equal.
\<close>

lemma emit_on_keeps_count:
  assumes "\<forall>t. tally w = Some t \<longrightarrow> count t = int (length (index t))"
    and "emit_on eventEmitter e w = Some (r, w')"
  shows "\<forall>t. tally w' = Some t \<longrightarrow> count t = int (length (index t))"
proof (cases eventEmitter)
  case Module_emitter
  with assms show ?thesis by (auto simp: emit_on_def)
next
  case Own_emitter
  with assms show ?thesis by (cases e) (auto simp: emit_on_def update_def)
qed

text \<open>
  Claim C10 fails on the code. A directory \<^verbatim>\<open>/d\<close> with the files \<^verbatim>\<open>a\<close> and \<^verbatim>\<open>b\<close> is removed with
  the hooks of the standard \<^verbatim>\<open>mark\<close>. Three \<^verbatim>\<open>mark\<close> events are emitted during the removal,
  for \<^verbatim>\<open>/d/a\<close>, \<^verbatim>\<open>/d/b\<close> and \<^verbatim>\<open>/d\<close>, and then \<^verbatim>\<open>done\<close>. The removal resolves with the count 1 and the
  index \<^verbatim>\<open>['/d']\<close>: \<^verbatim>\<open>file.mark\<close> emits on the emitter of \<^verbatim>\<open>./events\<close>, where \<^verbatim>\<open>update\<close> does not
  listen, and only \<^verbatim>\<open>dir.mark\<close> emits on the emitter of the removal. The count equals the
  length of the index; the index does not hold the paths of all \<^verbatim>\<open>mark\<close> events.
\<close>

theorem remove_index_omits_file_marks:
  "settled (remove_run ''/d'' mark_standard
       (DirEntry ''/d'' [FileEntry ''/d/a'', FileEntry ''/d/b'']) tree_world)
     = Some (Inr (Tally 1 [''/d'']))
   \<and> emitted_after (remove_run ''/d'' mark_standard
       (DirEntry ''/d'' [FileEntry ''/d/a'', FileEntry ''/d/b'']) tree_world)
     = [Mark ''/d/a'', Mark ''/d/b'', Mark ''/d'', Done ''/d'']"
  by (simp add: remove_run_def mark_standard_def unlink_of_def rmdir_of_def mark_def
      dir_mark_def emit_def emit_on_def world_eval tree_world_def fs_readdir_def fs_rmdir_def
      folderSet_add_def folderSet_delete_def emitted_after_def update_def)

section \<open>The standards\<close>

lemma await_assoc: "await (await m f) g = await m (\<lambda>x. await (f x) g)"
proof
  fix w
  show "await (await m f) g w = await m (\<lambda>x. await (f x) g) w"
    by (simp add: await_def split: option.splits prod.splits sum.splits)
qed

lemma await_resolve: "await (resolve x) f = f x"
  by (rule ext) (simp add: await_def resolve_def)

lemma repeat_numeral: "repeat (numeral n) body = await body (\<lambda>_. repeat (pred_numeral n) body)"
  by (simp add: numeral_eq_Suc)

lemma forByte_loop_step:
  "condition i \<Longrightarrow>
     forByte_loop k fileData condition increment i =
       await (writeExtended k (fd fileData) (fileSize fileData) 0
                (\<lambda>bufferSize pos. Buffer_alloc bufferSize (word_of_int i)))
         (\<lambda>_. forByte_loop k fileData condition increment (increment i))"
  by (rule ext) (subst forByte_loop.simps, simp)

lemma forByte_loop_stop:
  "\<not> condition i \<Longrightarrow> forByte_loop k fileData condition increment i = resolve ()"
  by (rule ext) (subst forByte_loop.simps, simp)

lemma forByte_gutmann:
  "await (forByte k fileData 0x00 (\<lambda>i. i < 0xFF) (\<lambda>i. i + 0x11)) (\<lambda>_. rest) =
     await (run_passes k fileData
       [Byte_pass 0x00, Byte_pass 0x11, Byte_pass 0x22, Byte_pass 0x33, Byte_pass 0x44,
        Byte_pass 0x55, Byte_pass 0x66, Byte_pass 0x77, Byte_pass 0x88, Byte_pass 0x99,
        Byte_pass 0xAA, Byte_pass 0xBB, Byte_pass 0xCC, Byte_pass 0xDD, Byte_pass 0xEE])
       (\<lambda>_. rest)"
  by (simp add: forByte_def forByte_loop_step forByte_loop_stop full_pass_def
      await_assoc await_resolve)

text \<open>
  Claim C7. The \<^verbatim>\<open>gutmann\<close> hook is the sequence of the claim: it opens the file, runs the 34
  full-file passes of \<open>gutmann_passes_spec\<close> in that order (the counter sweep being the 15
  constant passes \<^verbatim>\<open>0x00, 0x11, ..., 0xEE\<close>), then closes and unlinks the file. The two sides
  are equal as functions of the world, for every \<^verbatim>\<open>kMaxLength\<close> and path.
\<close>

theorem gutmann_order:
  "gutmann_unlink kMaxLength p = gutmann_spec kMaxLength p"
  unfolding gutmann_unlink_def gutmann_spec_def gutmann_passes_spec_def
  by (simp add: forByte_def forByte_loop_step forByte_loop_stop full_pass_def
      random_def byte_def byteArray_def with_passes_def no_options_def passes_of_def
      repeat_numeral await_assoc await_resolve)

theorem gutmann_order_witness:
  "settled (gutmann_unlink 2 ''/tmp/f'' (stored_world [0x41, 0x42])) = Some (Inr ())
   \<and> content_after (gutmann_unlink 2 ''/tmp/f'' (stored_world [0x41, 0x42])) ''/tmp/f'' = None
   \<and> emitted_after (gutmann_unlink 2 ''/tmp/f'' (stored_world [0x41, 0x42])) = [Removed ''/tmp/f'']
   \<and> calls_after (gutmann_unlink 2 ''/tmp/f'' (stored_world [0x41, 0x42])) =
       [Stat ''/tmp/f'', Open_rw ''/tmp/f'', RandomBytes 2, Write 3 [0, 1] 0 2 0,
        RandomBytes 2, Write 3 [2, 3] 0 2 0, RandomBytes 2, Write 3 [4, 5] 0 2 0,
        RandomBytes 2, Write 3 [6, 7] 0 2 0, Write 3 [0x55, 0x55] 0 2 0,
        Write 3 [0xAA, 0xAA] 0 2 0, Write 3 [0x92, 0x49] 0 2 0, Write 3 [0x49, 0x24] 0 2 0,
        Write 3 [0x24, 0x92] 0 2 0, Write 3 [0x00, 0x00] 0 2 0, Write 3 [0x11, 0x11] 0 2 0,
        Write 3 [0x22, 0x22] 0 2 0, Write 3 [0x33, 0x33] 0 2 0, Write 3 [0x44, 0x44] 0 2 0,
        Write 3 [0x55, 0x55] 0 2 0, Write 3 [0x66, 0x66] 0 2 0, Write 3 [0x77, 0x77] 0 2 0,
        Write 3 [0x88, 0x88] 0 2 0, Write 3 [0x99, 0x99] 0 2 0, Write 3 [0xAA, 0xAA] 0 2 0,
        Write 3 [0xBB, 0xBB] 0 2 0, Write 3 [0xCC, 0xCC] 0 2 0, Write 3 [0xDD, 0xDD] 0 2 0,
        Write 3 [0xEE, 0xEE] 0 2 0, Write 3 [0x92, 0x49] 0 2 0, Write 3 [0x49, 0x24] 0 2 0,
        Write 3 [0x24, 0x92] 0 2 0, Write 3 [0x6D, 0xB6] 0 2 0, Write 3 [0xB6, 0xDB] 0 2 0,
        Write 3 [0xDB, 0x6D] 0 2 0, RandomBytes 2, Write 3 [8, 9] 0 2 0, RandomBytes 2,
        Write 3 [10, 11] 0 2 0, RandomBytes 2, Write 3 [12, 13] 0 2 0, RandomBytes 2,
        Write 3 [14, 15] 0 2 0, Close 3, Unlink ''/tmp/f'']"
  unfolding gutmann_order
  by (simp add: gutmann_spec_def gutmann_passes_spec_def full_pass_def stored_world_def
      writeExtended.simps world_eval emitted_after_def init_def fs_stat_size_def fs_open_def
      file_end_def fs_close_def fs_unlink_def emit_def randomBytes_def
      Buffer_alloc_pattern_def Buffer_from_def replicate_numeral_unfold upt_conv_Cons)

text \<open>
  Claim C2 against the code. The pass functions read \<^verbatim>\<open>passes\<close> only, so a pass called with
  \<^verbatim>\<open>{ check: true }\<close> is the pass called without it, and the hook of \<^verbatim>\<open>NZSIT-402\<close> is the
  hook of \<^verbatim>\<open>randomByte\<close>. On a file of two bytes the hook of
  \<^verbatim>\<open>DOD 5220.22 M\<close> resolves after these calls: three writes, no read between or after them,
  then close and unlink. Nothing is read back or compared.
\<close>

theorem DOD_check_issues_no_readback:
  "zeros kMaxLength fileData checked = zeros kMaxLength fileData no_options
   \<and> ones kMaxLength fileData checked = ones kMaxLength fileData no_options
   \<and> random kMaxLength fileData checked = random kMaxLength fileData no_options
   \<and> randomByte kMaxLength fileData checked = randomByte kMaxLength fileData no_options
   \<and> NZSIT_402_unlink kMaxLength p = randomByte_unlink kMaxLength p
   \<and> settled (DOD_5220_22_M_unlink 2 ''/tmp/f'' (stored_world [0x41, 0x42])) = Some (Inr ())
   \<and> calls_after (DOD_5220_22_M_unlink 2 ''/tmp/f'' (stored_world [0x41, 0x42])) =
       [Stat ''/tmp/f'', Open_rw ''/tmp/f'', Write 3 [0x00, 0x00] 0 2 0,
        Write 3 [0xFF, 0xFF] 0 2 0, RandomBytes 2, Write 3 [0, 1] 0 2 0,
        Close 3, Unlink ''/tmp/f'']"
  by (simp add: zeros_def ones_def random_def randomByte_def checked_def no_options_def
      passes_of_def DOD_5220_22_M_unlink_def NZSIT_402_unlink_def randomByte_unlink_def
      stored_world_def
      writeExtended.simps world_eval init_def fs_stat_size_def fs_open_def
      file_end_def fs_close_def fs_unlink_def emit_def randomBytes_def
      replicate_numeral_unfold upt_conv_Cons)

section \<open>Further properties\<close>

lemma dir_mark_empty:
  assumes "folders w folderName = Some []"
  shows "dir_mark folderName eventEmitter w =
     Some (Inr (), heard eventEmitter (Mark folderName)
       (w\<lparr>calls := calls w @ [Readdir folderName],
          emitted := emitted w @ [Mark folderName]\<rparr>))"
  using assms
  by (simp add: dir_mark_def await_def fs_readdir_def emit_on_def logged_def)

lemma mark_standard_hooks [simp]:
  "unlink_of (mark_standard eventEmitter) = mark"
  "rmdir_of (mark_standard eventEmitter) = (\<lambda>folderName. dir_mark folderName eventEmitter)"
  by (simp_all add: unlink_of_def rmdir_of_def mark_standard_def)

lemma rimraf_mark_restores:
  "options = mark_standard eventEmitter \<Longrightarrow> shaped (folders w) t \<Longrightarrow> well_nested t
     \<Longrightarrow> dirs_of t \<inter> folderSet w = {} \<Longrightarrow>
     \<exists>w'. rimraf options t w = Some (Inr (), w')
        \<and> folderSet w' = folderSet w \<and> folders w' = folders w \<and> files w' = files w
        \<and> emitted w' = emitted w @ marks t
        \<and> tally w' = after_marks eventEmitter (dir_marks t) (tally w)"
  and rmkids_mark_restores:
  "options = mark_standard eventEmitter \<Longrightarrow> list_all (shaped (folders w)) ks
     \<Longrightarrow> list_all well_nested ks
     \<Longrightarrow> (\<Union>k \<in> set ks. dirs_of k) \<inter> folderSet w = {} \<Longrightarrow>
     \<exists>w'. rmkids options ks w = Some (Inr (), w')
        \<and> folderSet w' = folderSet w \<and> folders w' = folders w \<and> files w' = files w
        \<and> emitted w' = emitted w @ concat (map marks ks)
        \<and> tally w' = after_marks eventEmitter (concat (map dir_marks ks)) (tally w)"
proof (induction options t and options ks arbitrary: w and w rule: rimraf_rmkids.induct)
  case (1 options p)
  then show ?case by (simp add: mark_def emit_def)
next
  case (2 options p kids)
  note opt = "2.prems"(1)
  from "2.prems"(2) obtain names where
      l: "folders w p = Some names" and e: "(names = []) = (kids = [])"
    and sk: "list_all (shaped (folders w)) kids"
    by (auto split: option.splits)
  from "2.prems"(3) have pn: "p \<notin> (\<Union>k \<in> set kids. dirs_of k)"
    and wk: "list_all well_nested kids" by simp_all
  from "2.prems"(4) have ps: "p \<notin> folderSet w"
    and ds: "(\<Union>k \<in> set kids. dirs_of k) \<inter> folderSet w = {}" by auto
  show ?case
  proof (cases "kids = []")
    case True
    with l e have "folders w p = Some []" by simp
    from dir_mark_empty [OF this] True show ?thesis by (simp add: opt heard_mark)
  next
    case False
    with e have ne: "names \<noteq> []" by simp
    define w1 where "w1 = w\<lparr>calls := calls w @ [Readdir p, Rmdir p],
         folderSet := insert p (folderSet w)\<rparr>"
    have first: "dir_mark p eventEmitter w = Some (Inl ENOTEMPTY, w1)"
      unfolding w1_def using l ne ps by (rule dir_mark_first_visit)
    then have first': "rmdir_of options p w = Some (Inl ENOTEMPTY, w1)" by (simp add: opt)
    have "\<exists>w'. rmkids options kids w1 = Some (Inr (), w')
        \<and> folderSet w' = folderSet w1 \<and> folders w' = folders w1 \<and> files w' = files w1
        \<and> emitted w' = emitted w1 @ concat (map marks kids)
        \<and> tally w' = after_marks eventEmitter (concat (map dir_marks kids)) (tally w1)"
    proof (rule "2.IH" [OF first' refl refl refl opt])
      show "list_all (shaped (folders w1)) kids" using sk by (simp add: w1_def)
      show "list_all well_nested kids" using wk .
      show "(\<Union>k \<in> set kids. dirs_of k) \<inter> folderSet w1 = {}"
        using ds pn by (auto simp: w1_def)
    qed
    then obtain w2 where
        kids: "rmkids options kids w1 = Some (Inr (), w2)"
      and s2: "folderSet w2 = folderSet w1" and f2: "folders w2 = folders w1"
      and g2: "files w2 = files w1"
      and e2: "emitted w2 = emitted w1 @ concat (map marks kids)"
      and t2: "tally w2 = after_marks eventEmitter (concat (map dir_marks kids)) (tally w1)"
      by blast
    have second: "dir_mark p eventEmitter w2 =
       Some (Inr (), heard eventEmitter (Mark p)
         (w2\<lparr>calls := calls w2 @ [Readdir p],
            folderSet := folderSet w2 - {p},
            emitted := emitted w2 @ [Mark p]\<rparr>))"
      by (rule dir_mark_later_visit [of _ _ names]) (use l ne s2 f2 in \<open>simp_all add: w1_def\<close>)
    have restored: "folderSet w2 - {p} = folderSet w"
      using s2 ps by (auto simp: w1_def)
    have "rimraf options (DirEntry p kids) w =
       Some (Inr (), heard eventEmitter (Mark p)
         (w2\<lparr>calls := calls w2 @ [Readdir p],
            folderSet := folderSet w2 - {p},
            emitted := emitted w2 @ [Mark p]\<rparr>))"
      using first' kids second by (simp add: await_def opt)
    moreover have "tally (heard eventEmitter (Mark p)
         (w2\<lparr>calls := calls w2 @ [Readdir p],
            folderSet := folderSet w2 - {p},
            emitted := emitted w2 @ [Mark p]\<rparr>))
       = after_marks eventEmitter (dir_marks (DirEntry p kids)) (tally w)"
      using t2 by (simp add: heard_mark after_marks_append w1_def)
    ultimately show ?thesis
      using restored f2 g2 e2 by (simp add: w1_def)
  qed
next
  case (3 options)
  then show ?case by (simp add: resolve_def)
next
  case (4 options k ks)
  note opt = "4.prems"(1)
  from "4.prems" have
      "shaped (folders w) k" "well_nested k" "dirs_of k \<inter> folderSet w = {}"
    by auto
  from "4.IH"(1) [OF opt this] obtain w1 where
      k: "rimraf options k w = Some (Inr (), w1)"
    and s1: "folderSet w1 = folderSet w" and f1: "folders w1 = folders w"
    and g1: "files w1 = files w"
    and e1: "emitted w1 = emitted w @ marks k"
    and t1: "tally w1 = after_marks eventEmitter (dir_marks k) (tally w)"
    by blast
  have "\<exists>w'. rmkids options ks w1 = Some (Inr (), w')
        \<and> folderSet w' = folderSet w1 \<and> folders w' = folders w1 \<and> files w' = files w1
        \<and> emitted w' = emitted w1 @ concat (map marks ks)
        \<and> tally w' = after_marks eventEmitter (concat (map dir_marks ks)) (tally w1)"
    by (rule "4.IH"(2) [OF opt]) (use "4.prems" s1 f1 in auto)
  then obtain w2 where
      ks: "rmkids options ks w1 = Some (Inr (), w2)"
    and s2: "folderSet w2 = folderSet w1" and f2: "folders w2 = folders w1"
    and g2: "files w2 = files w1"
    and e2: "emitted w2 = emitted w1 @ concat (map marks ks)"
    and t2: "tally w2 = after_marks eventEmitter (concat (map dir_marks ks)) (tally w1)"
    by blast
  from k ks s1 s2 f1 f2 g1 g2 e1 e2 t1 t2 show ?case
    by (simp add: await_def after_marks_append)
qed

text \<open>
  The mark protocol over a whole tree. From an empty \<^verbatim>\<open>folderSet\<close> the traversal of a tree
  with the mark hooks resolves; every file and every directory gets exactly one \<^verbatim>\<open>mark\<close>
  event, the entries of a directory before the directory; no file and no directory is
  removed; and \<^verbatim>\<open>folderSet\<close> is empty again at the end.
\<close>

theorem mark_traversal_empties_folderSet:
  assumes "shaped (folders w) t" and "well_nested t" and "folderSet w = {}"
  shows "\<exists>w'. rimraf (mark_standard eventEmitter) t w = Some (Inr (), w')
     \<and> folderSet w' = {} \<and> folders w' = folders w \<and> files w' = files w
     \<and> emitted w' = emitted w @ marks t"
proof -
  have "dirs_of t \<inter> folderSet w = {}" using assms(3) by simp
  from rimraf_mark_restores [OF refl assms(1,2) this, of eventEmitter] assms(3)
  show ?thesis by auto
qed

theorem mark_traversal_empties_folderSet_witness:
  "settled (rimraf (mark_standard Own_emitter)
       (DirEntry ''/d'' [FileEntry ''/d/a'', FileEntry ''/d/b'']) tree_world)
     = Some (Inr ())
   \<and> emitted_after (rimraf (mark_standard Own_emitter)
       (DirEntry ''/d'' [FileEntry ''/d/a'', FileEntry ''/d/b'']) tree_world)
     = [Mark ''/d/a'', Mark ''/d/b'', Mark ''/d'']
   \<and> folderSet_after (rimraf (mark_standard Own_emitter)
       (DirEntry ''/d'' [FileEntry ''/d/a'', FileEntry ''/d/b'']) tree_world)
     = {}"
proof -
  let ?t = "DirEntry ''/d'' [FileEntry ''/d/a'', FileEntry ''/d/b'']"
  have s: "shaped (folders tree_world) ?t" by (simp add: tree_world_def)
  have n: "well_nested ?t" by simp
  have e: "folderSet tree_world = {}" by (simp add: tree_world_def idle_world_def)
  from mark_traversal_empties_folderSet [OF s n e, of Own_emitter]
  show ?thesis
    by (auto simp: settled_def emitted_after_def folderSet_after_def tree_world_def idle_world_def)
qed

text \<open>
  The same traversal inside a removal. Whatever the tree, \<^verbatim>\<open>remove_\<close> resolves with the
  directories of the tree as its index and their number as its count, while a \<^verbatim>\<open>mark\<close> event
  has been emitted for every file too: the index holds the path of a \<^verbatim>\<open>mark\<close> event only when
  \<^verbatim>\<open>dir.mark\<close> has emitted it.
\<close>

theorem mark_removal_indexes_directories_only:
  assumes "shaped (folders w) t" and "well_nested t" and "folderSet w = {}"
  shows "\<exists>w'. remove_run p mark_standard t w
         = Some (Inr (Tally (int (length (dir_marks t))) (dir_marks t)), w')
     \<and> emitted w' = emitted w @ marks t @ [Done p]
     \<and> folderSet w' = {}"
proof -
  define w0 where "w0 = w\<lparr>tally := Some (Tally 0 [])\<rparr>"
  have "shaped (folders w0) t" "dirs_of t \<inter> folderSet w0 = {}"
    using assms(1,3) by (simp_all add: w0_def)
  from rimraf_mark_restores [OF refl this(1) assms(2) this(2), of Own_emitter]
  obtain w1 where
      run: "rimraf (mark_standard Own_emitter) t w0 = Some (Inr (), w1)"
    and s1: "folderSet w1 = folderSet w0"
    and e1: "emitted w1 = emitted w0 @ marks t"
    and t1: "tally w1 = after_marks Own_emitter (dir_marks t) (tally w0)"
    by blast
  have t1': "tally w1 = Some (Tally (int (length (dir_marks t))) (dir_marks t))"
    using t1 by (simp add: w0_def)
  define w2 where "w2 = heard Own_emitter (Done p) (w1\<lparr>emitted := emitted w1 @ [Done p]\<rparr>)"
  have "remove_run p mark_standard t w
         = Some (Inr (Tally (int (length (dir_marks t))) (dir_marks t)), w2)"
    using run t1' by (simp add: remove_run_def await_def emit_on_def w0_def w2_def)
  moreover have "emitted w2 = emitted w @ marks t @ [Done p]"
    using e1 by (simp add: w2_def w0_def)
  moreover have "folderSet w2 = {}" using s1 assms(3) by (simp add: w2_def w0_def)
  ultimately show ?thesis by blast
qed

theorem mark_removal_indexes_directories_only_witness:
  "settled (remove_run ''/d'' mark_standard
       (DirEntry ''/d'' [FileEntry ''/d/a'', DirEntry ''/d/s'' [FileEntry ''/d/s/b'']])
       (idle_world\<lparr>folders := [''/d'' \<mapsto> [''a'', ''s''], ''/d/s'' \<mapsto> [''b'']],
          files := [''/d/a'' \<mapsto> [], ''/d/s/b'' \<mapsto> []]\<rparr>))
     = Some (Inr (Tally 2 [''/d/s'', ''/d'']))
   \<and> emitted_after (remove_run ''/d'' mark_standard
       (DirEntry ''/d'' [FileEntry ''/d/a'', DirEntry ''/d/s'' [FileEntry ''/d/s/b'']])
       (idle_world\<lparr>folders := [''/d'' \<mapsto> [''a'', ''s''], ''/d/s'' \<mapsto> [''b'']],
          files := [''/d/a'' \<mapsto> [], ''/d/s/b'' \<mapsto> []]\<rparr>))
     = [Mark ''/d/a'', Mark ''/d/s/b'', Mark ''/d/s'', Mark ''/d'', Done ''/d'']"
proof -
  let ?t = "DirEntry ''/d'' [FileEntry ''/d/a'', DirEntry ''/d/s'' [FileEntry ''/d/s/b'']]"
  let ?w = "idle_world\<lparr>folders := [''/d'' \<mapsto> [''a'', ''s''], ''/d/s'' \<mapsto> [''b'']],
          files := [''/d/a'' \<mapsto> [], ''/d/s/b'' \<mapsto> []]\<rparr>"
  have s: "shaped (folders ?w) ?t" by simp
  have n: "well_nested ?t" by simp
  have e: "folderSet ?w = {}" by (simp add: idle_world_def)
  from mark_removal_indexes_directories_only [OF s n e, of "''/d''"]
  show ?thesis
    by (auto simp: settled_def emitted_after_def idle_world_def)
qed

lemma file_end_removes:
  assumes "handles w (fd fileData) = Some q" and "files w (fileName fileData) = Some c"
  shows "file_end fileData w =
     Some (Inr (), w\<lparr>handles := (handles w)(fd fileData := None),
       calls := calls w @ [Close (fd fileData), Unlink (fileName fileData)],
       files := (files w)(fileName fileData := None),
       emitted := emitted w @ [Removed (fileName fileData)]\<rparr>)"
  using assms
  by (simp add: file_end_def await_def fs_close_def fs_unlink_def emit_def logged_def)

text \<open>
  The \<^verbatim>\<open>zeros\<close> standard end to end. On an existing file the hook resolves; it opens the
  file, writes zeros over every chunk of it, closes and unlinks it: afterwards no file is at
  that path and one \<^verbatim>\<open>removed\<close> event has been emitted.
\<close>

theorem zeros_unlink_overwrites_then_removes:
  assumes "0 < kMaxLength" and "files w p = Some c"
  shows "\<exists>w'. zeros_unlink kMaxLength p w = Some (Inr (), w')
     \<and> calls w' = calls w @ [Stat p, Open_rw p]
          @ fill_writes kMaxLength (next_fd w) (int (length c)) 0x00
          @ [Close (next_fd w), Unlink p]
     \<and> files w' = (files w)(p := None)
     \<and> emitted w' = emitted w @ [Removed p]"
proof -
  define fileData where "fileData = \<lparr>fd = next_fd w, fileName = p, fileSize = int (length c)\<rparr>"
  define w0 where "w0 = w\<lparr>handles := (handles w)(next_fd w \<mapsto> p), next_fd := Suc (next_fd w),
         calls := calls w @ [Stat p, Open_rw p]\<rparr>"
  define w1 where "w1 = w0\<lparr>files := (files w0)(p \<mapsto> (if (1::nat) = 0 then c else replicate (length c) 0x00)),
         calls := calls w0 @ concat (replicate 1 (fill_writes kMaxLength (fd fileData) (fileSize fileData) 0x00))\<rparr>"
  define w2 where "w2 = w1\<lparr>handles := (handles w1)(fd fileData := None),
       calls := calls w1 @ [Close (fd fileData), Unlink (fileName fileData)],
       files := (files w1)(fileName fileData := None),
       emitted := emitted w1 @ [Removed (fileName fileData)]\<rparr>"
  have i: "init p w = Some (Inr fileData, w0)"
    unfolding fileData_def w0_def using assms(2) by (rule init_opens)
  have z: "zeros kMaxLength fileData no_options w0 = Some (Inr (), w1)"
  proof -
    have "repeat 1 (writeExtended kMaxLength (fd fileData) (fileSize fileData) 0
             (\<lambda>n q. Buffer_alloc n 0x00)) w0 = Some (Inr (), w1)"
      unfolding w1_def
      by (rule repeat_fill [OF assms(1), of _ _ p c])
         (use assms(2) in \<open>simp_all add: w0_def fileData_def\<close>)
    then show ?thesis by (simp add: zeros_def no_options_def passes_of_def)
  qed
  have e: "file_end fileData w1 = Some (Inr (), w2)"
    unfolding w2_def
    by (rule file_end_removes [of _ _ p "replicate (length c) 0x00"])
       (simp_all add: w1_def w0_def fileData_def)
  have run: "zeros_unlink kMaxLength p w = Some (Inr (), w2)"
    using i z e by (simp add: zeros_unlink_def await_def)
  have "calls w2 = calls w @ [Stat p, Open_rw p]
          @ fill_writes kMaxLength (next_fd w) (int (length c)) 0x00
          @ [Close (next_fd w), Unlink p]"
    by (simp add: w2_def w1_def w0_def fileData_def)
  moreover have "files w2 = (files w)(p := None)"
    by (simp add: w2_def w1_def w0_def fileData_def)
  moreover have "emitted w2 = emitted w @ [Removed p]"
    by (simp add: w2_def w1_def w0_def fileData_def)
  ultimately show ?thesis using run by blast
qed

theorem zeros_unlink_overwrites_then_removes_witness:
  "settled (zeros_unlink 4 ''/tmp/f'' (stored_world [1, 2, 3, 4, 5, 6, 7, 8, 9, 10])) = Some (Inr ())
   \<and> calls_after (zeros_unlink 4 ''/tmp/f'' (stored_world [1, 2, 3, 4, 5, 6, 7, 8, 9, 10]))
     = [Stat ''/tmp/f'', Open_rw ''/tmp/f'', Write 3 [0, 0, 0, 0] 0 4 0, Write 3 [0, 0, 0, 0] 0 4 4,
        Write 3 [0, 0] 0 2 8, Close 3, Unlink ''/tmp/f'']
   \<and> content_after (zeros_unlink 4 ''/tmp/f'' (stored_world [1, 2, 3, 4, 5, 6, 7, 8, 9, 10])) ''/tmp/f''
     = None"
proof -
  have k: "(0::int) < 4" by simp
  have f: "files (stored_world [1, 2, 3, 4, 5, 6, 7, 8, 9, 10]) ''/tmp/f''
      = Some [1, 2, 3, 4, 5, 6, 7, 8, 9, 10]"
    by (simp add: stored_world_def)
  have c: "chunks 4 10 0 = [(0, 4), (4, 4), (8, 2)]" by (simp add: chunks.simps)
  from zeros_unlink_overwrites_then_removes [OF k f]
  show ?thesis
    by (auto simp: settled_def calls_after_def content_after_def stored_world_def idle_world_def
        fill_writes_def c replicate_numeral_unfold)
qed

end
